theory Spec2Isabelle
  imports Main "HOL-Library.Word"
begin

section \<open>Values of the configuration tree\<close>

text \<open>
  Modelled from the spec: the type \<^verbatim>\<open>ConfigMap\<close> is declared outside \<^verbatim>\<open>section.go\<close>. It is
  a mapping from string keys to values, and a value is a string, an integer, a float, a
  boolean or a nested mapping. \<^verbatim>\<open>section.go\<close> holds a value as an \<^verbatim>\<open>interface{}\<close> and tells
  the dynamic types \<^verbatim>\<open>string\<close>, \<^verbatim>\<open>int\<close>, \<^verbatim>\<open>bool\<close>, \<^verbatim>\<open>float64\<close> and \<^verbatim>\<open>ConfigMap\<close> apart by type
  assertion; the nil interface value is a value as well.

  A map is an association list read with \<^const>\<open>map_of\<close>: \<^verbatim>\<open>v, ok := m[k]\<close> is
  \<open>map_of m k\<close>. A \<^verbatim>\<open>float64\<close> is carried as its 64 bits; no arithmetic is done on it.
  Go's \<^verbatim>\<open>int\<close> is carried as an integer; its range, 64 bits here, matters in
  \<^verbatim>\<open>strconv.Atoi\<close> only, where it is written out.
\<close>

type_synonym float64 = "64 word"

datatype val =
    VNil
  | VString string
  | VInt int
  | VBool bool
  | VFloat float64
  | VMap "(string \<times> val) list"

type_synonym ConfigMap = "(string \<times> val) list"

section \<open>Errors and run-time panics\<close>

text \<open>
  Modelled from the spec: the package-level error values \<^verbatim>\<open>ErrNil\<close> and
  \<^verbatim>\<open>ErrInvalidType\<close> are declared outside \<^verbatim>\<open>section.go\<close>; they are two distinct sentinel
  errors (the absent error and the invalid-type error). The third kind of error value
  that \<^verbatim>\<open>section.go\<close> can return is the \<^verbatim>\<open>*strconv.NumError\<close> of the Go library, with its
  fields \<^verbatim>\<open>Func\<close>, \<^verbatim>\<open>Num\<close> and \<^verbatim>\<open>Err\<close>.
\<close>

datatype num_err = ErrSyntax | ErrRange

datatype error =
    ErrNil
  | ErrInvalidType
  | NumError string string num_err

text \<open>
  A call either returns or ends in a run-time panic. A function returning
  \<^verbatim>\<open>(T, error)\<close> returns a value of \<open>error + T\<close>.
\<close>

datatype panic = NilPointerDereference | IndexOutOfRange | Deadlock | UnlockOfUnlockedMutex

datatype 'a outcome = Panics panic | Returns 'a

definition and_then :: "'a outcome \<Rightarrow> ('a \<Rightarrow> 'b outcome) \<Rightarrow> 'b outcome" where
  "and_then x f = (case x of Panics p \<Rightarrow> Panics p | Returns a \<Rightarrow> f a)"

section \<open>The Go library functions that section.go calls\<close>

subsection \<open>strings.Split\<close>

text \<open>
  \<^verbatim>\<open>strings.Index(s, sep)\<close>: the first position at which \<open>sep\<close> occurs in \<open>s\<close>.
\<close>

fun Index :: "string \<Rightarrow> string \<Rightarrow> nat option" where
  "Index [] sep = (if sep = [] then Some 0 else None)"
| "Index (c # cs) sep =
     (if take (length sep) (c # cs) = sep then Some 0
      else map_option Suc (Index cs sep))"

lemma Index_bound: "Index s sep = Some i \<Longrightarrow> i + length sep \<le> length s"
proof (induction s arbitrary: i)
  case Nil
  then show ?case by (simp split: if_splits)
next
  case (Cons c cs)
  show ?case
  proof (cases "take (length sep) (c # cs) = sep")
    case True
    then have "length (take (length sep) (c # cs)) = length sep"
      by simp
    then have "length sep \<le> length (c # cs)"
      by simp
    with True Cons.prems show ?thesis by simp
  next
    case False
    with Cons.prems obtain j where "Index cs sep = Some j" "i = Suc j"
      by auto
    with Cons.IH show ?thesis by simp
  qed
qed

text \<open>
  \<^verbatim>\<open>genSplit(s, sep, 0, -1)\<close> for a non-empty separator: cut at the first occurrence,
  continue behind it, and end with the rest.
\<close>

function genSplit :: "string \<Rightarrow> string \<Rightarrow> string list" where
  "genSplit s sep =
     (case Index s sep of
        None \<Rightarrow> [s]
      | Some i \<Rightarrow>
          if sep = [] then [s]
          else take i s # genSplit (drop (i + length sep) s) sep)"
  by pat_completeness auto
termination
proof (relation "measure (\<lambda>(s, sep). length s)")
  show "wf (measure (\<lambda>(s, sep). length s))" by simp
next
  fix s sep :: string and i :: nat
  assume "Index s sep = Some i" and "sep \<noteq> []"
  then have "i + length sep \<le> length s" and "0 < length sep"
    by (simp_all add: Index_bound)
  then have "length s - (i + length sep) < length s"
    by arith
  then show "((drop (i + length sep) s, sep), (s, sep)) \<in> measure (\<lambda>(s, sep). length s)"
    by simp
qed

declare genSplit.simps [simp del]

text \<open>
  \<^verbatim>\<open>strings.Split(s, sep)\<close>. With the empty separator Go splits after each UTF-8
  sequence (\<^verbatim>\<open>explode\<close>): \<open>utf8Size\<close> is the size that \<^verbatim>\<open>utf8.DecodeRuneInString\<close> gives
  for the sequence at the head of a non-empty string, 1 for a byte that starts no valid
  sequence. Such a byte is a segment of its own (older releases of the library put the
  encoding of U+FFFD in its place; the number of segments is the same). The empty
  string has no segment at all.
\<close>

definition byteAt :: "string \<Rightarrow> nat \<Rightarrow> nat" where
  "byteAt s i = of_char (s ! i)"

definition utf8Size :: "string \<Rightarrow> nat" where
  "utf8Size s =
     (let s0 = byteAt s 0 in
      if s0 < 0x80 \<or> s0 < 0xC2 \<or> 0xF4 < s0 then 1
      else
        let sz = (if s0 < 0xE0 then 2 else if s0 < 0xF0 then 3 else 4 :: nat);
            lo = (if s0 = 0xE0 then 0xA0 else if s0 = 0xF0 then 0x90 else 0x80);
            hi = (if s0 = 0xED then 0x9F else if s0 = 0xF4 then 0x8F else 0xBF)
        in if length s < sz then 1
           else if byteAt s 1 < lo \<or> hi < byteAt s 1 then 1
           else if sz \<le> 2 then 2
           else if byteAt s 2 < 0x80 \<or> 0xBF < byteAt s 2 then 1
           else if sz \<le> 3 then 3
           else if byteAt s 3 < 0x80 \<or> 0xBF < byteAt s 3 then 1
           else 4)"

lemma utf8Size_pos: "0 < utf8Size s"
  by (simp add: utf8Size_def Let_def)

function explode :: "string \<Rightarrow> string list" where
  "explode s = (if s = [] then [] else take (utf8Size s) s # explode (drop (utf8Size s) s))"
  by pat_completeness auto
termination
proof (relation "measure length")
  show "wf (measure length)" by simp
next
  fix s :: string
  assume "s \<noteq> []"
  then have "0 < length s" by simp
  then have "length s - utf8Size s < length s"
    using utf8Size_pos[of s] by arith
  then show "(drop (utf8Size s) s, s) \<in> measure length" by simp
qed

declare explode.simps [simp del]

definition Split :: "string \<Rightarrow> string \<Rightarrow> string list" where
  "Split s sep = (if sep = [] then explode s else genSplit s sep)"

subsection \<open>strconv.Atoi and strconv.ParseBool\<close>

definition isDigit :: "char \<Rightarrow> bool" where
  "isDigit c = (48 \<le> (of_char c :: nat) \<and> (of_char c :: nat) \<le> 57)"

definition digitVal :: "char \<Rightarrow> nat" where
  "digitVal c = of_char c - 48"

text \<open>
  The digit loop of \<^verbatim>\<open>strconv.ParseUint(s, 10, 64)\<close>: a byte that is no decimal digit is
  a syntax error, a value beyond \<open>2^64 - 1\<close> a range error, whichever comes first.
\<close>

fun parseUintLoop :: "nat \<Rightarrow> string \<Rightarrow> num_err + nat" where
  "parseUintLoop n [] = Inr n"
| "parseUintLoop n (c # cs) =
     (if \<not> isDigit c then Inl ErrSyntax
      else if n \<ge> (2 ^ 64 - 1) div 10 + 1 then Inl ErrRange
      else if n * 10 + digitVal c > 2 ^ 64 - 1 then Inl ErrRange
      else parseUintLoop (n * 10 + digitVal c) cs)"

definition ParseUint :: "string \<Rightarrow> num_err + nat" where
  "ParseUint s = (if s = [] then Inl ErrSyntax else parseUintLoop 0 s)"

text \<open>
  \<^verbatim>\<open>strconv.ParseInt(s, 10, 0)\<close> on a 64-bit platform: an optional sign, then
  \<^verbatim>\<open>ParseUint\<close>; a range error of \<^verbatim>\<open>ParseUint\<close> continues as the largest value and fails
  the range check of the signed result.
\<close>

definition ParseInt :: "string \<Rightarrow> num_err + int" where
  "ParseInt s0 =
     (if s0 = [] then Inl ErrSyntax
      else
        let neg = (hd s0 = CHR ''-'');
            s = (if hd s0 = CHR ''+'' \<or> hd s0 = CHR ''-'' then tl s0 else s0)
        in case ParseUint s of
             Inl ErrSyntax \<Rightarrow> Inl ErrSyntax
           | Inl ErrRange \<Rightarrow> Inl ErrRange
           | Inr un \<Rightarrow>
               if \<not> neg \<and> un \<ge> 2 ^ 63 then Inl ErrRange
               else if neg \<and> un > 2 ^ 63 then Inl ErrRange
               else Inr (if neg then - int un else int un))"

text \<open>The loop of the fast path of \<^verbatim>\<open>strconv.Atoi\<close> (fewer than 19 bytes: no overflow).\<close>

fun atoiLoop :: "nat \<Rightarrow> string \<Rightarrow> nat option" where
  "atoiLoop n [] = Some n"
| "atoiLoop n (c # cs) =
     (if \<not> isDigit c then None else atoiLoop (n * 10 + digitVal c) cs)"

definition Atoi :: "string \<Rightarrow> error + int" where
  "Atoi s0 =
     (if 0 < length s0 \<and> length s0 < 19 then
        let s = (if hd s0 = CHR ''-'' \<or> hd s0 = CHR ''+'' then tl s0 else s0)
        in if length s < 1 then Inl (NumError ''Atoi'' s0 ErrSyntax)
           else case atoiLoop 0 s of
                  None \<Rightarrow> Inl (NumError ''Atoi'' s0 ErrSyntax)
                | Some n \<Rightarrow> Inr (if hd s0 = CHR ''-'' then - int n else int n)
      else case ParseInt s0 of
             Inl e \<Rightarrow> Inl (NumError ''Atoi'' s0 e)
           | Inr i \<Rightarrow> Inr i)"

definition ParseBool :: "string \<Rightarrow> error + bool" where
  "ParseBool str =
     (if str \<in> set [''1'', ''t'', ''T'', ''true'', ''TRUE'', ''True''] then Inr True
      else if str \<in> set [''0'', ''f'', ''F'', ''false'', ''FALSE'', ''False''] then Inr False
      else Inl (NumError ''ParseBool'' str ErrSyntax))"

subsection \<open>fmt.Sprintf with the verb v\<close>

definition digitChar :: "nat \<Rightarrow> char" where
  "digitChar k = ''0123456789'' ! k"

fun formatNat :: "nat \<Rightarrow> string" where
  "formatNat n = (if n < 10 then [digitChar n] else formatNat (n div 10) @ [digitChar (n mod 10)])"

declare formatNat.simps [simp del]

definition FormatInt :: "int \<Rightarrow> string" where
  "FormatInt i = (if i < 0 then CHR ''-'' # formatNat (nat (- i)) else formatNat (nat i))"

text \<open>
  The Go library's rendering of a \<^verbatim>\<open>float64\<close> (shortest decimal that reads back) and
  of a map, and its parser of floating-point literals, are parameters of the model: the
  operations below take them as the record \<open>L\<close>. \<^verbatim>\<open>ParseFloat\<close> fails, as the library
  does, with a syntax or a range error.
\<close>

record golib =
  FormatFloat :: "float64 \<Rightarrow> string"
  FormatMap :: "ConfigMap \<Rightarrow> string"
  ParseFloat :: "string \<Rightarrow> num_err + float64"

definition valToString :: "golib \<Rightarrow> val \<Rightarrow> string" where
  "valToString L v =
     (case v of
        VNil \<Rightarrow> ''<nil>''
      | VString s \<Rightarrow> s
      | VInt i \<Rightarrow> FormatInt i
      | VBool b \<Rightarrow> (if b then ''true'' else ''false'')
      | VFloat x \<Rightarrow> FormatFloat L x
      | VMap cm \<Rightarrow> FormatMap L cm)"

section \<open>section.go\<close>

text \<open>
  The struct \<^verbatim>\<open>section\<close>: a mutex (\<open>True\<close> when held) and the map. A \<^verbatim>\<open>*section\<close> is a
  \<open>section option\<close>, \<open>None\<close> the nil pointer. A value of the interface type \<^verbatim>\<open>Section\<close> is
  either the nil interface, on which every method call panics, or holds a \<^verbatim>\<open>*section\<close>,
  which may be the nil pointer (the type parameter is the type of pointers).

  The functions of this section give the result of a call made by one goroutine on
  sections whose mutexes are free. \<^verbatim>\<open>Lock\<close> and the deferred \<^verbatim>\<open>Unlock\<close> enclose a single
  read of the map and are left out here; they are part of the model over a store of
  section objects further down, which returns the same results.

  The package-level \<^verbatim>\<open>Delimiter\<close> is declared outside \<^verbatim>\<open>section.go\<close>; it is the
  parameter \<open>d\<close> of every function that splits a key.
\<close>

record "section" =
  mtx :: bool
  m :: ConfigMap

datatype 'p Section = NilInterface | Holds 'p

text \<open>A method call \<^verbatim>\<open>i.f(...)\<close> on an interface value \<open>i\<close>.\<close>

definition invoke :: "'p Section \<Rightarrow> ('p \<Rightarrow> 'a outcome) \<Rightarrow> 'a outcome" where
  "invoke i f = (case i of NilInterface \<Rightarrow> Panics NilPointerDereference | Holds s \<Rightarrow> f s)"

definition splitSections :: "string \<Rightarrow> string \<Rightarrow> string list" where
  "splitSections d key = Split key d"

text \<open>
  \<^verbatim>\<open>getSection\<close> reads \<^verbatim>\<open>s.mtx\<close> and \<^verbatim>\<open>s.m\<close>: on the nil pointer it panics. A missing key
  reads as the nil value, whose type assertion to \<^verbatim>\<open>ConfigMap\<close> fails like that of
  any value that is no map.
\<close>

definition getSection :: "section option \<Rightarrow> string \<Rightarrow> section option outcome" where
  "getSection s sec =
     (case s of
        None \<Rightarrow> Panics NilPointerDereference
      | Some s' \<Rightarrow>
          (case map_of (m s') sec of
             Some (VMap vc) \<Rightarrow> Returns (Some \<lparr>mtx = False, m = vc\<rparr>)
           | _ \<Rightarrow> Returns None))"

text \<open>
  The loop of \<^verbatim>\<open>GetSection\<close> over the selectors. \<^verbatim>\<open>return nil\<close> inside the loop returns
  the nil interface; \<^verbatim>\<open>return s\<close> after the loop returns an interface value that holds
  the pointer \<open>s\<close>, nil or not.
\<close>

fun GetSection_loop :: "section option \<Rightarrow> string list \<Rightarrow> section option Section outcome" where
  "GetSection_loop s [] = Returns (Holds s)"
| "GetSection_loop s (nextSelector # rest) =
     (if s = None then Returns NilInterface
      else and_then (getSection s nextSelector) (\<lambda>s'. GetSection_loop s' rest))"

definition GetSection :: "string \<Rightarrow> section option \<Rightarrow> string \<Rightarrow> section option Section outcome" where
  "GetSection d s key = GetSection_loop s (splitSections d key)"

text \<open>
  The loop of \<^verbatim>\<open>GetValue\<close> over \<^verbatim>\<open>selectors[0 .. lenSelectors-2]\<close>: \<open>Inl ErrNil\<close> is the
  early \<^verbatim>\<open>return nil, ErrNil\<close>, \<open>Inr s\<close> the pointer after the last round.
\<close>

fun GetValue_loop :: "section option \<Rightarrow> string list \<Rightarrow> (error + section option) outcome" where
  "GetValue_loop s [] = Returns (Inr s)"
| "GetValue_loop s (sel # rest) =
     and_then (getSection s sel)
       (\<lambda>s'. if s' = None then Returns (Inl ErrNil) else GetValue_loop s' rest)"

definition GetValue :: "string \<Rightarrow> section option \<Rightarrow> string \<Rightarrow> (error + val) outcome" where
  "GetValue d s key =
     (if s = None then Returns (Inl ErrNil)
      else
        let selectors = splitSections d key;
            lenSelectors = length selectors
        in and_then
             (GetValue_loop s (if lenSelectors > 1 then take (lenSelectors - 1) selectors else []))
             (\<lambda>r. case r of
                Inl err \<Rightarrow> Returns (Inl err)
              | Inr None \<Rightarrow> Panics NilPointerDereference
              | Inr (Some s') \<Rightarrow>
                  if lenSelectors = 0 then Panics IndexOutOfRange
                  else (case map_of (m s') (selectors ! (lenSelectors - 1)) of
                          None \<Rightarrow> Returns (Inl ErrNil)
                        | Some v \<Rightarrow> Returns (Inr v))))"

definition GetString :: "golib \<Rightarrow> string \<Rightarrow> section option \<Rightarrow> string \<Rightarrow> (error + string) outcome" where
  "GetString L d s key =
     and_then (GetValue d s key)
       (\<lambda>r. case r of
          Inl err \<Rightarrow> Returns (Inl err)
        | Inr v \<Rightarrow> Returns (Inr (case v of VString vt \<Rightarrow> vt | _ \<Rightarrow> valToString L v)))"

definition GetInt :: "golib \<Rightarrow> string \<Rightarrow> section option \<Rightarrow> string \<Rightarrow> (error + int) outcome" where
  "GetInt L d s key =
     and_then (GetValue d s key)
       (\<lambda>r. case r of
          Inl err \<Rightarrow> Returns (Inl err)
        | Inr v \<Rightarrow> Returns (case v of VInt vt \<Rightarrow> Inr vt | _ \<Rightarrow> Atoi (valToString L v)))"

definition GetBool :: "golib \<Rightarrow> string \<Rightarrow> section option \<Rightarrow> string \<Rightarrow> (error + bool) outcome" where
  "GetBool L d s key =
     and_then (GetValue d s key)
       (\<lambda>r. case r of
          Inl err \<Rightarrow> Returns (Inl err)
        | Inr v \<Rightarrow> Returns (case v of VBool vt \<Rightarrow> Inr vt | _ \<Rightarrow> ParseBool (valToString L v)))"

definition parseFloat64 :: "golib \<Rightarrow> string \<Rightarrow> error + float64" where
  "parseFloat64 L str =
     (case ParseFloat L str of
        Inl e \<Rightarrow> Inl (NumError ''ParseFloat'' str e)
      | Inr x \<Rightarrow> Inr x)"

definition GetFloat64 :: "golib \<Rightarrow> string \<Rightarrow> section option \<Rightarrow> string \<Rightarrow> (error + float64) outcome" where
  "GetFloat64 L d s key =
     and_then (GetValue d s key)
       (\<lambda>r. case r of
          Inl err \<Rightarrow> Returns (Inl err)
        | Inr v \<Rightarrow> Returns (case v of VFloat vt \<Rightarrow> Inr vt | _ \<Rightarrow> parseFloat64 L (valToString L v)))"

text \<open>The default-valued getters: \<^verbatim>\<open>if err != nil { v = def }\<close>.\<close>

definition orDef :: "'a \<Rightarrow> (error + 'a) \<Rightarrow> 'a" where
  "orDef def r = (case r of Inl err \<Rightarrow> def | Inr v \<Rightarrow> v)"

definition GetValueOrDef :: "string \<Rightarrow> section option \<Rightarrow> string \<Rightarrow> val \<Rightarrow> val outcome" where
  "GetValueOrDef d s key def = and_then (GetValue d s key) (\<lambda>r. Returns (orDef def r))"

definition GetStringOrDef :: "golib \<Rightarrow> string \<Rightarrow> section option \<Rightarrow> string \<Rightarrow> string \<Rightarrow> string outcome" where
  "GetStringOrDef L d s key def = and_then (GetString L d s key) (\<lambda>r. Returns (orDef def r))"

definition GetIntOrDef :: "golib \<Rightarrow> string \<Rightarrow> section option \<Rightarrow> string \<Rightarrow> int \<Rightarrow> int outcome" where
  "GetIntOrDef L d s key def = and_then (GetInt L d s key) (\<lambda>r. Returns (orDef def r))"

text \<open>\<^verbatim>\<open>GetBoolOrDef\<close> returns an \<^verbatim>\<open>interface{}\<close> that holds the boolean.\<close>

definition GetBoolOrDef :: "golib \<Rightarrow> string \<Rightarrow> section option \<Rightarrow> string \<Rightarrow> bool \<Rightarrow> val outcome" where
  "GetBoolOrDef L d s key def = and_then (GetBool L d s key) (\<lambda>r. Returns (VBool (orDef def r)))"

definition GetFloat64OrDef :: "golib \<Rightarrow> string \<Rightarrow> section option \<Rightarrow> string \<Rightarrow> float64 \<Rightarrow> float64 outcome" where
  "GetFloat64OrDef L d s key def = and_then (GetFloat64 L d s key) (\<lambda>r. Returns (orDef def r))"

definition IsNil :: "section option \<Rightarrow> bool" where
  "IsNil s = (s = None)"

section \<open>section.go over a store of section objects\<close>

text \<open>
  The same functions with the memory they touch. The store holds the section objects;
  a \<^verbatim>\<open>*section\<close> is the index of its object, \<open>None\<close> the nil pointer. A function takes
  the store and returns it with its result. \<^verbatim>\<open>s.mtx.Lock()\<close> on a mutex that is held
  never returns in a program of one goroutine (the run time ends it: all goroutines are
  asleep); \<^verbatim>\<open>Unlock\<close> of a free mutex is a fatal error. \<^verbatim>\<open>&section{...}\<close> puts a new
  object behind the last one. The deferred \<^verbatim>\<open>Unlock\<close> runs when the function returns.
\<close>

type_synonym store = "section list"

definition Lock :: "store \<Rightarrow> nat \<Rightarrow> store outcome" where
  "Lock h a =
     (if mtx (h ! a) then Panics Deadlock
      else Returns (h[a := (h ! a)\<lparr>mtx := True\<rparr>]))"

definition Unlock :: "store \<Rightarrow> nat \<Rightarrow> store outcome" where
  "Unlock h a =
     (if mtx (h ! a) then Returns (h[a := (h ! a)\<lparr>mtx := False\<rparr>])
      else Panics UnlockOfUnlockedMutex)"

definition getSection_st :: "store \<Rightarrow> nat option \<Rightarrow> string \<Rightarrow> (nat option \<times> store) outcome" where
  "getSection_st h s sec =
     (case s of
        None \<Rightarrow> Panics NilPointerDereference
      | Some a \<Rightarrow>
          and_then (Lock h a)
            (\<lambda>h1. case map_of (m (h1 ! a)) sec of
                     Some (VMap vc) \<Rightarrow>
                       and_then (Unlock (h1 @ [\<lparr>mtx = False, m = vc\<rparr>]) a)
                         (\<lambda>h2. Returns (Some (length h1), h2))
                   | _ \<Rightarrow> and_then (Unlock h1 a) (\<lambda>h2. Returns (None, h2))))"

fun GetSection_st_loop ::
  "store \<Rightarrow> nat option \<Rightarrow> string list \<Rightarrow> (nat option Section \<times> store) outcome" where
  "GetSection_st_loop h s [] = Returns (Holds s, h)"
| "GetSection_st_loop h s (nextSelector # rest) =
     (if s = None then Returns (NilInterface, h)
      else and_then (getSection_st h s nextSelector)
             (\<lambda>(s', h'). GetSection_st_loop h' s' rest))"

definition GetSection_st ::
  "string \<Rightarrow> store \<Rightarrow> nat option \<Rightarrow> string \<Rightarrow> (nat option Section \<times> store) outcome" where
  "GetSection_st d h s key = GetSection_st_loop h s (splitSections d key)"

fun GetValue_st_loop ::
  "store \<Rightarrow> nat option \<Rightarrow> string list \<Rightarrow> ((error + nat option) \<times> store) outcome" where
  "GetValue_st_loop h s [] = Returns (Inr s, h)"
| "GetValue_st_loop h s (sel # rest) =
     and_then (getSection_st h s sel)
       (\<lambda>(s', h'). if s' = None then Returns (Inl ErrNil, h')
                   else GetValue_st_loop h' s' rest)"

definition GetValue_st ::
  "string \<Rightarrow> store \<Rightarrow> nat option \<Rightarrow> string \<Rightarrow> ((error + val) \<times> store) outcome" where
  "GetValue_st d h s key =
     (if s = None then Returns (Inl ErrNil, h)
      else
        let selectors = splitSections d key;
            lenSelectors = length selectors
        in and_then
             (GetValue_st_loop h s
                (if lenSelectors > 1 then take (lenSelectors - 1) selectors else []))
             (\<lambda>(r, h'). case r of
                Inl err \<Rightarrow> Returns (Inl err, h')
              | Inr None \<Rightarrow> Panics NilPointerDereference
              | Inr (Some a) \<Rightarrow>
                  and_then (Lock h' a)
                    (\<lambda>h1. if lenSelectors = 0 then Panics IndexOutOfRange
                          else (case map_of (m (h1 ! a)) (selectors ! (lenSelectors - 1)) of
                                  None \<Rightarrow>
                                    and_then (Unlock h1 a) (\<lambda>h2. Returns (Inl ErrNil, h2))
                                | Some v \<Rightarrow>
                                    and_then (Unlock h1 a) (\<lambda>h2. Returns (Inr v, h2))))))"

text \<open>
  The other methods reach the store through \<^verbatim>\<open>GetValue\<close> only.
\<close>

definition GetString_st ::
  "golib \<Rightarrow> string \<Rightarrow> store \<Rightarrow> nat option \<Rightarrow> string \<Rightarrow> ((error + string) \<times> store) outcome" where
  "GetString_st L d h s key =
     and_then (GetValue_st d h s key)
       (\<lambda>(r, h'). case r of
          Inl err \<Rightarrow> Returns (Inl err, h')
        | Inr v \<Rightarrow> Returns (Inr (case v of VString vt \<Rightarrow> vt | _ \<Rightarrow> valToString L v), h'))"

definition GetInt_st ::
  "golib \<Rightarrow> string \<Rightarrow> store \<Rightarrow> nat option \<Rightarrow> string \<Rightarrow> ((error + int) \<times> store) outcome" where
  "GetInt_st L d h s key =
     and_then (GetValue_st d h s key)
       (\<lambda>(r, h'). case r of
          Inl err \<Rightarrow> Returns (Inl err, h')
        | Inr v \<Rightarrow> Returns (case v of VInt vt \<Rightarrow> Inr vt | _ \<Rightarrow> Atoi (valToString L v), h'))"

definition GetBool_st ::
  "golib \<Rightarrow> string \<Rightarrow> store \<Rightarrow> nat option \<Rightarrow> string \<Rightarrow> ((error + bool) \<times> store) outcome" where
  "GetBool_st L d h s key =
     and_then (GetValue_st d h s key)
       (\<lambda>(r, h'). case r of
          Inl err \<Rightarrow> Returns (Inl err, h')
        | Inr v \<Rightarrow>
            Returns (case v of VBool vt \<Rightarrow> Inr vt | _ \<Rightarrow> ParseBool (valToString L v), h'))"

definition GetFloat64_st ::
  "golib \<Rightarrow> string \<Rightarrow> store \<Rightarrow> nat option \<Rightarrow> string \<Rightarrow> ((error + float64) \<times> store) outcome" where
  "GetFloat64_st L d h s key =
     and_then (GetValue_st d h s key)
       (\<lambda>(r, h'). case r of
          Inl err \<Rightarrow> Returns (Inl err, h')
        | Inr v \<Rightarrow>
            Returns (case v of VFloat vt \<Rightarrow> Inr vt | _ \<Rightarrow> parseFloat64 L (valToString L v), h'))"

definition GetValueOrDef_st ::
  "string \<Rightarrow> store \<Rightarrow> nat option \<Rightarrow> string \<Rightarrow> val \<Rightarrow> (val \<times> store) outcome" where
  "GetValueOrDef_st d h s key def =
     and_then (GetValue_st d h s key) (\<lambda>(r, h'). Returns (orDef def r, h'))"

definition GetStringOrDef_st ::
  "golib \<Rightarrow> string \<Rightarrow> store \<Rightarrow> nat option \<Rightarrow> string \<Rightarrow> string \<Rightarrow> (string \<times> store) outcome" where
  "GetStringOrDef_st L d h s key def =
     and_then (GetString_st L d h s key) (\<lambda>(r, h'). Returns (orDef def r, h'))"

definition GetIntOrDef_st ::
  "golib \<Rightarrow> string \<Rightarrow> store \<Rightarrow> nat option \<Rightarrow> string \<Rightarrow> int \<Rightarrow> (int \<times> store) outcome" where
  "GetIntOrDef_st L d h s key def =
     and_then (GetInt_st L d h s key) (\<lambda>(r, h'). Returns (orDef def r, h'))"

definition GetBoolOrDef_st ::
  "golib \<Rightarrow> string \<Rightarrow> store \<Rightarrow> nat option \<Rightarrow> string \<Rightarrow> bool \<Rightarrow> (val \<times> store) outcome" where
  "GetBoolOrDef_st L d h s key def =
     and_then (GetBool_st L d h s key) (\<lambda>(r, h'). Returns (VBool (orDef def r), h'))"

definition GetFloat64OrDef_st ::
  "golib \<Rightarrow> string \<Rightarrow> store \<Rightarrow> nat option \<Rightarrow> string \<Rightarrow> float64 \<Rightarrow> (float64 \<times> store) outcome" where
  "GetFloat64OrDef_st L d h s key def =
     and_then (GetFloat64_st L d h s key) (\<lambda>(r, h'). Returns (orDef def r, h'))"

definition IsNil_st :: "store \<Rightarrow> nat option \<Rightarrow> (bool \<times> store) outcome" where
  "IsNil_st h s = Returns (s = None, h)"

section \<open>The specification's notions\<close>

text \<open>
  The chain of nested-mapping lookups along a list of segments, as the specification
  describes navigation: every segment must be the key of a nested mapping.
\<close>

fun resolve :: "ConfigMap \<Rightarrow> string list \<Rightarrow> ConfigMap option" where
  "resolve cm [] = Some cm"
| "resolve cm (k # ks) =
     (case map_of cm k of
        Some (VMap vc) \<Rightarrow> resolve vc ks
      | _ \<Rightarrow> None)"

text \<open>
  The specification's value lookup: all segments but the last resolve as above, the
  last one is a key of the mapping reached.
\<close>

definition lookupValue :: "ConfigMap \<Rightarrow> string list \<Rightarrow> error + val" where
  "lookupValue cm segs =
     (case resolve cm (butlast segs) of
        None \<Rightarrow> Inl ErrNil
      | Some vc \<Rightarrow> (case map_of vc (last segs) of None \<Rightarrow> Inl ErrNil | Some v \<Rightarrow> Inr v))"

text \<open>An interface value that holds a section which is not nil.\<close>

definition present :: "'a option Section \<Rightarrow> bool" where
  "present i = (case i of NilInterface \<Rightarrow> False | Holds None \<Rightarrow> False | Holds (Some s) \<Rightarrow> True)"

text \<open>\<^verbatim>\<open>strings.Join\<close>, to say that splitting drops nothing.\<close>

fun Join :: "string list \<Rightarrow> string \<Rightarrow> string" where
  "Join [] sep = []"
| "Join [x] sep = x"
| "Join (x # y # ys) sep = x @ sep @ Join (y # ys) sep"

text \<open>
  The delimiter \<open>d\<close> occurs in \<open>s\<close> at position \<open>i\<close>. A list of segments is plain when
  it is not empty and no segment runs into a delimiter: in a segment followed by the
  delimiter, the delimiter occurs nowhere before the end of the segment, and it does
  not occur in the last segment. For a delimiter of one character the segments are
  plain when none of them holds the character. Empty segments are always plain.
\<close>

definition occursAt :: "string \<Rightarrow> string \<Rightarrow> nat \<Rightarrow> bool" where
  "occursAt d s i = (i + length d \<le> length s \<and> take (length d) (drop i s) = d)"

definition plainSegments :: "string \<Rightarrow> string list \<Rightarrow> bool" where
  "plainSegments d segs =
     (segs \<noteq> [] \<and>
      list_all (\<lambda>seg. list_all (\<lambda>i. \<not> occursAt d (seg @ d) i) [0..<length seg]) (butlast segs) \<and>
      list_all (\<lambda>i. \<not> occursAt d (last segs) i) [0..<length (last segs)])"

text \<open>
  Stores as they are between two calls: every mutex is free. A pointer is nil or the
  index of an object of the store.
\<close>

definition unlocked :: "store \<Rightarrow> bool" where
  "unlocked h = list_all (\<lambda>s. \<not> mtx s) h"

definition validPtr :: "store \<Rightarrow> nat option \<Rightarrow> bool" where
  "validPtr h s = (case s of None \<Rightarrow> True | Some a \<Rightarrow> a < length h)"

text \<open>
  A call returns, and every object of the store \<open>h\<close> it started from is in the store it
  returns, at its place and as it was: the same map and a free mutex. What the returned
  store holds beyond these are the section objects the call created.
\<close>

definition returnsKeeping :: "store \<Rightarrow> ('a \<times> store) outcome \<Rightarrow> bool" where
  "returnsKeeping h x =
     (case x of
        Panics p \<Rightarrow> False
      | Returns (r, h') \<Rightarrow> take (length h) h' = h \<and> unlocked h')"

text \<open>The section a pointer refers to.\<close>

definition deref :: "store \<Rightarrow> nat option \<Rightarrow> section option" where
  "deref h s = map_option (\<lambda>a. h ! a) s"

text \<open>A library instance and a tree for the examples.\<close>

definition demoLib :: golib where
  "demoLib =
     \<lparr>FormatFloat = (\<lambda>x. ''1.5''),
      FormatMap = (\<lambda>cm. ''map[]''),
      ParseFloat = (\<lambda>str. if str = ''1.5'' then Inr 0x3FF8000000000000 else Inl ErrSyntax)\<rparr>"

definition demoTree :: ConfigMap where
  "demoTree =
     [(''g'', VMap [(''e'', VMap [(''f'', VString ''true'')])]),
      (''n'', VInt 42),
      (''s'', VString ''42''),
      (''p'', VString ''abc''),
      (''q'', VString ''abc''),
      (''b'', VString ''yes''),
      ([], VInt 7)]"

definition demoRoot :: "section option" where
  "demoRoot = Some \<lparr>mtx = False, m = demoTree\<rparr>"

section \<open>Splitting a key\<close>

lemma genSplit_not_Nil: "genSplit s sep \<noteq> []"
  by (subst genSplit.simps) (simp split: option.splits)

lemma Split_not_Nil: "sep \<noteq> [] \<Longrightarrow> Split s sep \<noteq> []"
  by (simp add: Split_def genSplit_not_Nil)

lemma Split_empty_key: "sep \<noteq> [] \<Longrightarrow> Split [] sep = [[]]"
  by (simp add: Split_def genSplit.simps)

lemma Index_Some_decomp:
  "Index s sep = Some i \<Longrightarrow> s = take i s @ sep @ drop (i + length sep) s"
proof (induction s arbitrary: i)
  case Nil
  then show ?case by (simp split: if_splits)
next
  case (Cons c cs)
  show ?case
  proof (cases "take (length sep) (c # cs) = sep")
    case True
    with Cons.prems have "i = 0" by simp
    moreover have "c # cs = take (length sep) (c # cs) @ drop (length sep) (c # cs)"
      by (simp only: append_take_drop_id)
    ultimately show ?thesis using True by simp
  next
    case False
    with Cons.prems obtain j where j: "Index cs sep = Some j" "i = Suc j"
      by auto
    from Cons.IH[OF j(1)] j(2) show ?thesis by simp
  qed
qed

lemma Join_Cons: "ys \<noteq> [] \<Longrightarrow> Join (x # ys) sep = x @ sep @ Join ys sep"
  by (cases ys) simp_all

lemma Index_None_no_prefix: "Index s sep = None \<Longrightarrow> sep \<noteq> []"
  by (cases s) (auto split: if_splits)

lemma Join_genSplit: "sep \<noteq> [] \<Longrightarrow> Join (genSplit s sep) sep = s"
proof (induction s sep rule: genSplit.induct)
  case (1 s sep)
  show ?case
  proof (cases "Index s sep")
    case None
    then show ?thesis by (subst genSplit.simps) simp
  next
    case (Some i)
    have "Join (genSplit s sep) sep = take i s @ sep @ Join (genSplit (drop (i + length sep) s) sep) sep"
      using Some "1.prems" by (subst genSplit.simps) (simp add: Join_Cons genSplit_not_Nil)
    also have "\<dots> = take i s @ sep @ drop (i + length sep) s"
      using "1.IH"[OF Some "1.prems"] "1.prems" by simp
    also have "\<dots> = s"
      using Index_Some_decomp[OF Some] by simp
    finally show ?thesis .
  qed
qed

lemma Split_leading: "sep \<noteq> [] \<Longrightarrow> Split (sep @ s) sep = [] # Split s sep"
proof -
  assume ne: "sep \<noteq> []"
  then obtain c cs where sep: "sep = c # cs" by (cases sep) auto
  have "Index (sep @ s) sep = Some 0"
    by (simp add: sep)
  then have "genSplit (sep @ s) sep = [] # genSplit s sep"
    using ne by (subst genSplit.simps) simp
  then show ?thesis using ne by (simp add: Split_def)
qed

lemma take_append_le: "n \<le> length xs \<Longrightarrow> take n (xs @ ys) = take n xs"
  by simp

lemma Index_append_Some: "Index s sep = Some i \<Longrightarrow> Index (s @ t) sep = Some i"
proof (induction s arbitrary: i)
  case Nil
  then show ?case by (cases t) (simp_all split: if_splits)
next
  case (Cons c cs)
  show ?case
  proof (cases "take (length sep) (c # cs) = sep")
    case True
    then have "length (take (length sep) (c # cs)) = length sep" by simp
    then have le: "length sep \<le> length (c # cs)" by simp
    then have "take (length sep) ((c # cs) @ t) = take (length sep) (c # cs)"
      by (rule take_append_le)
    with True Cons.prems show ?thesis by simp
  next
    case False
    with Cons.prems obtain j where j: "Index cs sep = Some j" "i = Suc j" by auto
    from Index_bound[OF j(1)] have le: "length sep \<le> length (c # cs)" by simp
    then have "take (length sep) ((c # cs) @ t) = take (length sep) (c # cs)"
      by (rule take_append_le)
    with False Cons.IH[OF j(1)] j(2) show ?thesis by simp
  qed
qed

lemma Index_char_None: "Index s [c] = None \<Longrightarrow> Index (s @ [c]) [c] = Some (length s)"
  by (induction s) (auto split: if_splits)

lemma genSplit_trailing_char: "genSplit (s @ [c]) [c] = genSplit s [c] @ [[]]"
proof (induction s "[c]" rule: genSplit.induct)
  case (1 s)
  show ?case
  proof (cases "Index s [c]")
    case None
    then have "genSplit s [c] = [s]" by (subst genSplit.simps) simp
    moreover have "genSplit (s @ [c]) [c] = [s, []]"
      using Index_char_None[OF None]
      by (subst genSplit.simps) (simp add: genSplit.simps[of "[]"])
    ultimately show ?thesis by simp
  next
    case (Some i)
    from Index_bound[OF Some] have le: "Suc i \<le> length s" by simp
    have "genSplit (s @ [c]) [c] = take i s # genSplit (drop (Suc i) s @ [c]) [c]"
      using Index_append_Some[OF Some, of "[c]"] le
      by (subst genSplit.simps) simp
    also have "\<dots> = take i s # (genSplit (drop (Suc i) s) [c] @ [[]])"
      using "1.hyps"[OF Some] by simp
    also have "\<dots> = genSplit s [c] @ [[]]"
      using Some by (subst (2) genSplit.simps) simp
    finally show ?thesis .
  qed
qed

subsection \<open>Plain segments\<close>

lemma occursAt_0: "occursAt d s 0 \<longleftrightarrow> take (length d) s = d"
proof
  assume "occursAt d s 0" then show "take (length d) s = d" by (simp add: occursAt_def)
next
  assume t: "take (length d) s = d"
  then have "length (take (length d) s) = length d" by simp
  then have "length d \<le> length s" by simp
  with t show "occursAt d s 0" by (simp add: occursAt_def)
qed

lemma occursAt_Suc: "occursAt d (c # cs) (Suc i) \<longleftrightarrow> occursAt d cs i"
  by (simp add: occursAt_def)

lemma Index_Some_iff:
  "Index s d = Some i \<longleftrightarrow> occursAt d s i \<and> (\<forall>j<i. \<not> occursAt d s j)"
proof (induction s arbitrary: i)
  case Nil
  show ?case by (auto simp: occursAt_def)
next
  case (Cons c cs)
  show ?case
  proof (cases "take (length d) (c # cs) = d")
    case True
    then have o: "occursAt d (c # cs) 0" by (simp only: occursAt_0)
    have "Index (c # cs) d = Some 0" using True by simp
    moreover have "occursAt d (c # cs) i \<and> (\<forall>j<i. \<not> occursAt d (c # cs) j) \<longleftrightarrow> i = 0"
      using o by (cases i) auto
    ultimately show ?thesis by auto
  next
    case False
    then have no: "\<not> occursAt d (c # cs) 0" by (simp only: occursAt_0) simp
    have ix: "Index (c # cs) d = map_option Suc (Index cs d)" using False by simp
    show ?thesis
    proof (cases i)
      case 0
      with no ix show ?thesis by auto
    next
      case (Suc k)
      have "(\<forall>j<Suc k. \<not> occursAt d (c # cs) j) \<longleftrightarrow> (\<forall>j<k. \<not> occursAt d cs j)"
      proof
        assume a: "\<forall>j<Suc k. \<not> occursAt d (c # cs) j"
        show "\<forall>j<k. \<not> occursAt d cs j"
        proof (intro allI impI)
          fix j assume "j < k"
          then have "Suc j < Suc k" by simp
          with a have "\<not> occursAt d (c # cs) (Suc j)" by blast
          then show "\<not> occursAt d cs j" by (simp add: occursAt_Suc)
        qed
      next
        assume a: "\<forall>j<k. \<not> occursAt d cs j"
        show "\<forall>j<Suc k. \<not> occursAt d (c # cs) j"
        proof (intro allI impI)
          fix j assume j: "j < Suc k"
          show "\<not> occursAt d (c # cs) j"
          proof (cases j)
            case 0 with no show ?thesis by simp
          next
            case (Suc l)
            with j a have "\<not> occursAt d cs l" by simp
            with Suc show ?thesis by (simp add: occursAt_Suc)
          qed
        qed
      qed
      with Suc ix Cons.IH[of k] show ?thesis
        by (auto simp: occursAt_Suc)
    qed
  qed
qed

lemma Index_None_iff:
  assumes "d \<noteq> []"
  shows "Index s d = None \<longleftrightarrow> (\<forall>i<length s. \<not> occursAt d s i)"
proof (induction s)
  case Nil
  show ?case using assms by simp
next
  case (Cons c cs)
  have split: "(\<forall>i<length (c # cs). \<not> occursAt d (c # cs) i) \<longleftrightarrow>
      \<not> occursAt d (c # cs) 0 \<and> (\<forall>i<length cs. \<not> occursAt d cs i)"
  proof
    assume a: "\<forall>i<length (c # cs). \<not> occursAt d (c # cs) i"
    have "\<forall>i<length cs. \<not> occursAt d cs i"
    proof (intro allI impI)
      fix i assume "i < length cs"
      then have "Suc i < length (c # cs)" by simp
      with a have "\<not> occursAt d (c # cs) (Suc i)" by blast
      then show "\<not> occursAt d cs i" by (simp add: occursAt_Suc)
    qed
    moreover from a have "\<not> occursAt d (c # cs) 0" by simp
    ultimately show "\<not> occursAt d (c # cs) 0 \<and> (\<forall>i<length cs. \<not> occursAt d cs i)" by blast
  next
    assume a: "\<not> occursAt d (c # cs) 0 \<and> (\<forall>i<length cs. \<not> occursAt d cs i)"
    show "\<forall>i<length (c # cs). \<not> occursAt d (c # cs) i"
    proof (intro allI impI)
      fix i assume i: "i < length (c # cs)"
      show "\<not> occursAt d (c # cs) i"
      proof (cases i)
        case 0 with a show ?thesis by simp
      next
        case (Suc k)
        with i a have "\<not> occursAt d cs k" by simp
        with Suc show ?thesis by (simp add: occursAt_Suc)
      qed
    qed
  qed
  show ?case
    unfolding split using Cons.IH by (simp add: occursAt_0)
qed

lemma occursAt_append: "occursAt d xs j \<Longrightarrow> occursAt d (xs @ ys) j"
  by (simp add: occursAt_def)

lemma occursAt_prefix: "j + length d \<le> length xs \<Longrightarrow> occursAt d (xs @ ys) j \<Longrightarrow> occursAt d xs j"
  by (simp add: occursAt_def)

lemma plainSegments_single:
  "plainSegments d [x] \<longleftrightarrow> (\<forall>i<length x. \<not> occursAt d x i)"
  by (auto simp: plainSegments_def list_all_iff)

lemma plainSegments_Cons:
  "plainSegments d (x # y # ys) \<longleftrightarrow>
     (\<forall>i<length x. \<not> occursAt d (x @ d) i) \<and> plainSegments d (y # ys)"
  by (auto simp: plainSegments_def list_all_iff)

lemma Index_first_segment:
  assumes "\<forall>i<length x. \<not> occursAt d (x @ d) i"
  shows "Index (x @ d @ rest) d = Some (length x)"
proof -
  have "occursAt d (x @ d @ rest) (length x)"
    by (simp add: occursAt_def)
  moreover have "\<forall>j<length x. \<not> occursAt d (x @ d @ rest) j"
  proof (intro allI impI)
    fix j assume j: "j < length x"
    show "\<not> occursAt d (x @ d @ rest) j"
    proof
      assume "occursAt d (x @ d @ rest) j"
      then have "occursAt d ((x @ d) @ rest) j" by simp
      moreover have "j + length d \<le> length (x @ d)" using j by simp
      ultimately have "occursAt d (x @ d) j" by (rule occursAt_prefix[rotated])
      with assms j show False by blast
    qed
  qed
  ultimately show ?thesis by (simp add: Index_Some_iff)
qed

lemma genSplit_Join:
  "d \<noteq> [] \<Longrightarrow> plainSegments d segs \<Longrightarrow> genSplit (Join segs d) d = segs"
proof (induction segs d rule: Join.induct)
  case (1 sep)
  then show ?case by (simp add: plainSegments_def)
next
  case (2 x sep)
  then have "Index x sep = None"
    by (simp add: plainSegments_single Index_None_iff)
  then show ?case by (subst genSplit.simps) simp
next
  case (3 x y ys sep)
  from "3.prems"(2) have fx: "\<forall>i<length x. \<not> occursAt sep (x @ sep) i"
    and rest: "plainSegments sep (y # ys)"
    by (simp_all add: plainSegments_Cons)
  have ix: "Index (x @ sep @ Join (y # ys) sep) sep = Some (length x)"
    using fx by (rule Index_first_segment)
  have "genSplit (x @ sep @ Join (y # ys) sep) sep = x # genSplit (Join (y # ys) sep) sep"
    using ix "3.prems"(1) by (subst genSplit.simps) simp
  with "3.IH"[OF "3.prems"(1) rest] show ?case by simp
qed

lemma plainSegments_genSplit: "d \<noteq> [] \<Longrightarrow> plainSegments d (genSplit s d)"
proof (induction s d rule: genSplit.induct)
  case (1 s sep)
  show ?case
  proof (cases "Index s sep")
    case None
    then have "genSplit s sep = [s]" by (subst genSplit.simps) simp
    with None "1.prems" show ?thesis
      by (simp add: plainSegments_single Index_None_iff)
  next
    case (Some i)
    let ?rest = "drop (i + length sep) s"
    have g: "genSplit s sep = take i s # genSplit ?rest sep"
      using Some "1.prems" by (subst genSplit.simps) simp
    have ih: "plainSegments sep (genSplit ?rest sep)"
      using "1.IH"[OF Some "1.prems" "1.prems"] .
    from Index_bound[OF Some] have le: "i \<le> length s" by simp
    have dec: "s = (take i s @ sep) @ ?rest"
      using Index_Some_decomp[OF Some] by simp
    have first: "\<forall>j<length (take i s). \<not> occursAt sep (take i s @ sep) j"
    proof (intro allI impI)
      fix j assume j: "j < length (take i s)"
      with le have ji: "j < i" by simp
      show "\<not> occursAt sep (take i s @ sep) j"
      proof
        assume "occursAt sep (take i s @ sep) j"
        then have "occursAt sep ((take i s @ sep) @ ?rest) j" by (rule occursAt_append)
        with dec have "occursAt sep s j" by simp
        moreover from Some ji have "\<not> occursAt sep s j" by (simp add: Index_Some_iff)
        ultimately show False by blast
      qed
    qed
    obtain y ys where ys: "genSplit ?rest sep = y # ys"
      using genSplit_not_Nil[of ?rest sep] by (cases "genSplit ?rest sep") auto
    show ?thesis
      using first ih by (simp add: g ys plainSegments_Cons)
  qed
qed

lemma plainSegments_char:
  "plainSegments [c] segs \<longleftrightarrow> segs \<noteq> [] \<and> (\<forall>seg\<in>set segs. c \<notin> set seg)"
proof -
  have a: "\<And>x. (\<forall>i<length x. \<not> occursAt [c] (x @ [c]) i) \<longleftrightarrow> c \<notin> set x"
    by (auto simp: occursAt_def take_Suc_conv_app_nth nth_append in_set_conv_nth
        hd_drop_conv_nth take_Suc)
  have b: "\<And>x. (\<forall>i<length x. \<not> occursAt [c] x i) \<longleftrightarrow> c \<notin> set x"
    by (auto simp: occursAt_def in_set_conv_nth hd_drop_conv_nth take_Suc)
  show ?thesis
  proof (induction segs rule: induct_list012)
    case 1 show ?case by (simp add: plainSegments_def)
  next
    case (2 x) show ?case by (simp add: plainSegments_single b)
  next
    case (3 x y zs) then show ?case by (auto simp: plainSegments_Cons a)
  qed
qed


section \<open>The loops, in terms of the chain of lookups\<close>

lemma and_then_Returns [simp]: "and_then (Returns a) f = f a"
  by (simp add: and_then_def)

lemma and_then_Panics [simp]: "and_then (Panics p) f = Panics p"
  by (simp add: and_then_def)

lemma getSection_Some:
  "getSection (Some s) sec =
     Returns (case map_of (m s) sec of Some (VMap vc) \<Rightarrow> Some \<lparr>mtx = False, m = vc\<rparr> | _ \<Rightarrow> None)"
  by (simp add: getSection_def split: option.splits val.splits)

lemma GetSection_loop_nil:
  "GetSection_loop None segs = Returns (if segs = [] then Holds None else NilInterface)"
  by (cases segs) simp_all

lemma GetSection_loop_resolve:
  "\<exists>i. GetSection_loop (Some s) segs = Returns i \<and>
       (present i \<longleftrightarrow> resolve (m s) segs \<noteq> None) \<and>
       (\<forall>s'. i = Holds (Some s') \<longrightarrow> resolve (m s) segs = Some (m s'))"
proof (induction segs arbitrary: s)
  case Nil
  show ?case by (simp add: present_def)
next
  case (Cons k ks)
  show ?case
  proof (cases "\<exists>vc. map_of (m s) k = Some (VMap vc)")
    case True
    then obtain vc where vc: "map_of (m s) k = Some (VMap vc)" by blast
    from Cons.IH[of "\<lparr>mtx = False, m = vc\<rparr>"] vc show ?thesis
      by (simp add: getSection_Some)
  next
    case False
    then have "getSection (Some s) k = Returns None" and "resolve (m s) (k # ks) = None"
      by (auto simp: getSection_Some split: option.splits val.splits)
    then show ?thesis
      by (simp add: GetSection_loop_nil present_def)
  qed
qed

lemma GetSection_loop_NilInterface:
  "GetSection_loop (Some s) segs = Returns NilInterface \<longleftrightarrow> resolve (m s) (butlast segs) = None"
proof (induction segs arbitrary: s)
  case Nil
  show ?case by simp
next
  case (Cons k ks)
  show ?case
  proof (cases "\<exists>vc. map_of (m s) k = Some (VMap vc)")
    case True
    then obtain vc where vc: "map_of (m s) k = Some (VMap vc)" by blast
    show ?thesis
    proof (cases ks)
      case Nil
      with vc show ?thesis by (simp add: getSection_Some)
    next
      case (Cons k' ks')
      with Cons.IH[of "\<lparr>mtx = False, m = vc\<rparr>"] vc show ?thesis
        by (simp add: getSection_Some)
    qed
  next
    case False
    then have g: "getSection (Some s) k = Returns None"
      by (auto simp: getSection_Some split: option.splits val.splits)
    from False have r: "ks \<noteq> [] \<Longrightarrow> resolve (m s) (k # butlast ks) = None"
      by (auto split: option.splits val.splits)
    show ?thesis
      using g r by (cases ks) (simp_all add: GetSection_loop_nil)
  qed
qed

lemma GetValue_loop_resolve:
  "\<exists>r. GetValue_loop (Some s) segs = Returns r \<and>
       (case resolve (m s) segs of
          None \<Rightarrow> r = Inl ErrNil
        | Some vc \<Rightarrow> \<exists>s'. r = Inr (Some s') \<and> m s' = vc)"
proof (induction segs arbitrary: s)
  case Nil
  show ?case by simp
next
  case (Cons k ks)
  show ?case
  proof (cases "\<exists>vc. map_of (m s) k = Some (VMap vc)")
    case True
    then obtain vc where vc: "map_of (m s) k = Some (VMap vc)" by blast
    from Cons.IH[of "\<lparr>mtx = False, m = vc\<rparr>"] vc show ?thesis
      by (simp add: getSection_Some)
  next
    case False
    then have "getSection (Some s) k = Returns None" and "resolve (m s) (k # ks) = None"
      by (auto simp: getSection_Some split: option.splits val.splits)
    then show ?thesis by simp
  qed
qed

lemma splitSections_not_Nil: "d \<noteq> [] \<Longrightarrow> splitSections d key \<noteq> []"
  by (simp add: splitSections_def Split_not_Nil)

lemma GetValue_segments:
  assumes "segs \<noteq> []" and "splitSections d key = segs"
  shows "GetValue d (Some s) key = Returns (lookupValue (m s) segs)"
proof -
  have tk: "(if length segs > 1 then take (length segs - 1) segs else []) = butlast segs"
    using assms(1) by (cases segs) (auto simp: butlast_conv_take)
  have lst: "segs ! (length segs - 1) = last segs"
    using assms(1) by (simp add: last_conv_nth)
  have unf: "GetValue d (Some s) key =
      and_then (GetValue_loop (Some s) (butlast segs))
        (\<lambda>r. case r of
           Inl err \<Rightarrow> Returns (Inl err)
         | Inr None \<Rightarrow> Panics NilPointerDereference
         | Inr (Some s') \<Rightarrow>
             (case map_of (m s') (last segs) of
                None \<Rightarrow> Returns (Inl ErrNil)
              | Some v \<Rightarrow> Returns (Inr v)))"
    unfolding GetValue_def Let_def assms(2) tk lst using assms(1) by simp
  obtain r where r: "GetValue_loop (Some s) (butlast segs) = Returns r"
    and c: "case resolve (m s) (butlast segs) of
              None \<Rightarrow> r = Inl ErrNil
            | Some vc \<Rightarrow> \<exists>s'. r = Inr (Some s') \<and> m s' = vc"
    using GetValue_loop_resolve[of s "butlast segs"] by blast
  show ?thesis
  proof (cases "resolve (m s) (butlast segs)")
    case None
    with c have "r = Inl ErrNil" by simp
    with r None show ?thesis
      by (simp add: unf lookupValue_def)
  next
    case (Some vc)
    with c obtain s' where "r = Inr (Some s')" "m s' = vc" by auto
    with r Some show ?thesis
      by (simp add: unf lookupValue_def split: option.splits)
  qed
qed

lemma GetValue_lookupValue:
  "d \<noteq> [] \<Longrightarrow> GetValue d (Some s) key = Returns (lookupValue (m s) (splitSections d key))"
  by (rule GetValue_segments) (simp_all add: splitSections_not_Nil)

lemma GetValue_nil: "GetValue d None key = Returns (Inl ErrNil)"
  by (simp add: GetValue_def)

lemma GetValue_returns: "d \<noteq> [] \<Longrightarrow> \<exists>r. GetValue d s key = Returns r"
  by (cases s) (simp_all add: GetValue_nil GetValue_lookupValue)

section \<open>The store is only read\<close>

lemma unlocked_nth: "unlocked h \<Longrightarrow> a < length h \<Longrightarrow> \<not> mtx (h ! a)"
  by (simp add: unlocked_def list_all_length)

lemma unlocked_snoc: "unlocked h \<Longrightarrow> unlocked (h @ [\<lparr>mtx = False, m = vc\<rparr>])"
  by (simp add: unlocked_def)

lemma Lock_free: "\<not> mtx (h ! a) \<Longrightarrow> Lock h a = Returns (h[a := (h ! a)\<lparr>mtx := True\<rparr>])"
  by (simp add: Lock_def)

lemma Unlock_after_Lock:
  assumes "a < length h" and "\<not> mtx (h ! a)"
  shows "Unlock (h[a := (h ! a)\<lparr>mtx := True\<rparr>] @ xs) a = Returns (h @ xs)"
proof -
  let ?h1 = "h[a := (h ! a)\<lparr>mtx := True\<rparr>]"
  have hit: "(?h1 @ xs) ! a = (h ! a)\<lparr>mtx := True\<rparr>"
    using assms(1) by (simp add: nth_append)
  have undo: "(h ! a)\<lparr>mtx := True\<rparr>\<lparr>mtx := False\<rparr> = h ! a"
    using assms(2) by (cases "h ! a") simp
  have "(?h1 @ xs)[a := ((?h1 @ xs) ! a)\<lparr>mtx := False\<rparr>] = h @ xs"
    using assms(1) by (simp only: hit undo) (simp add: list_update_append)
  then show ?thesis
    by (simp add: Unlock_def hit)
qed

lemma getSection_st_free:
  assumes "unlocked h" and "a < length h"
  shows "getSection_st h (Some a) sec =
     Returns (case map_of (m (h ! a)) sec of
                Some (VMap vc) \<Rightarrow> (Some (length h), h @ [\<lparr>mtx = False, m = vc\<rparr>])
              | _ \<Rightarrow> (None, h))"
proof -
  have free: "\<not> mtx (h ! a)" using assms by (rule unlocked_nth)
  let ?h1 = "h[a := (h ! a)\<lparr>mtx := True\<rparr>]"
  have rd: "m (?h1 ! a) = m (h ! a)" using assms(2) by simp
  have u0: "Unlock ?h1 a = Returns h"
    using Unlock_after_Lock[OF assms(2) free, of "[]"] by simp
  have u1: "\<And>x. Unlock (?h1 @ [x]) a = Returns (h @ [x])"
    using Unlock_after_Lock[OF assms(2) free] by simp
  show ?thesis
    by (simp add: getSection_st_def Lock_free[OF free] rd u0 u1
        split: option.splits val.splits)
qed

lemma take_grow: "take (length h) h1 = h \<Longrightarrow> take (length h1) h2 = h1 \<Longrightarrow> take (length h) h2 = h"
  by (metis append_eq_conv_conj append_take_drop_id take_append length_take min.cobounded2 take_all)

lemma getSection_st_step:
  assumes "unlocked h" and "a < length h"
  obtains s1 h1 where
    "getSection_st h (Some a) sec = Returns (s1, h1)"
    "take (length h) h1 = h" "unlocked h1" "validPtr h1 s1"
    "getSection (Some (h ! a)) sec = Returns (deref h1 s1)"
proof (cases "\<exists>vc. map_of (m (h ! a)) sec = Some (VMap vc)")
  case True
  then obtain vc where vc: "map_of (m (h ! a)) sec = Some (VMap vc)" by blast
  let ?new = "\<lparr>mtx = False, m = vc\<rparr>"
  have "getSection_st h (Some a) sec = Returns (Some (length h), h @ [?new])"
    using vc by (simp add: getSection_st_free[OF assms])
  moreover have "unlocked (h @ [?new])"
    using assms(1) by (rule unlocked_snoc)
  moreover have "getSection (Some (h ! a)) sec = Returns (deref (h @ [?new]) (Some (length h)))"
    using vc by (simp add: getSection_Some deref_def)
  ultimately show ?thesis
    by (intro that[of "Some (length h)" "h @ [?new]"]) (simp_all add: validPtr_def)
next
  case False
  then have "getSection_st h (Some a) sec = Returns (None, h)"
    by (auto simp: getSection_st_free[OF assms] split: option.splits val.splits)
  moreover from False have "getSection (Some (h ! a)) sec = Returns (deref h None)"
    by (auto simp: getSection_Some deref_def split: option.splits val.splits)
  ultimately show ?thesis
    using assms(1) by (intro that[of None h]) (simp_all add: validPtr_def)
qed

lemma GetSection_st_loop_frame:
  "unlocked h \<Longrightarrow> validPtr h s \<Longrightarrow>
   \<exists>i h'. GetSection_st_loop h s segs = Returns (i, h') \<and>
          take (length h) h' = h \<and> unlocked h' \<and>
          GetSection_loop (deref h s) segs = Returns (map_Section (deref h') i)"
proof (induction segs arbitrary: h s)
  case Nil
  then show ?case by simp
next
  case (Cons k ks)
  show ?case
  proof (cases s)
    case None
    with Cons.prems show ?thesis by (simp add: deref_def)
  next
    case (Some a)
    with Cons.prems have a: "a < length h" by (simp add: validPtr_def)
    obtain s1 h1 where st: "getSection_st h (Some a) k = Returns (s1, h1)"
      and k1: "take (length h) h1 = h" and u1: "unlocked h1" and v1: "validPtr h1 s1"
      and ag: "getSection (Some (h ! a)) k = Returns (deref h1 s1)"
      using getSection_st_step[OF Cons.prems(1) a] by blast
    from Cons.IH[OF u1 v1] obtain i h' where
      lp: "GetSection_st_loop h1 s1 ks = Returns (i, h')"
      and k2: "take (length h1) h' = h1" and u2: "unlocked h'"
      and ag2: "GetSection_loop (deref h1 s1) ks = Returns (map_Section (deref h') i)"
      by blast
    have "take (length h) h' = h" using k1 k2 by (rule take_grow)
    moreover have "GetSection_st_loop h s (k # ks) = Returns (i, h')"
      using Some st lp by simp
    moreover have "GetSection_loop (deref h s) (k # ks) = Returns (map_Section (deref h') i)"
      using Some ag ag2 by (simp add: deref_def)
    ultimately show ?thesis using u2 by blast
  qed
qed

lemma GetValue_st_loop_frame:
  "unlocked h \<Longrightarrow> a < length h \<Longrightarrow>
   \<exists>r h'. GetValue_st_loop h (Some a) segs = Returns (r, h') \<and>
          take (length h) h' = h \<and> unlocked h' \<and>
          (case r of Inl e \<Rightarrow> True | Inr p \<Rightarrow> \<exists>b. p = Some b \<and> b < length h') \<and>
          GetValue_loop (Some (h ! a)) segs = Returns (map_sum id (deref h') r)"
proof (induction segs arbitrary: h a)
  case Nil
  then show ?case by (simp add: deref_def)
next
  case (Cons k ks)
  obtain s1 h1 where st: "getSection_st h (Some a) k = Returns (s1, h1)"
    and k1: "take (length h) h1 = h" and u1: "unlocked h1" and v1: "validPtr h1 s1"
    and ag: "getSection (Some (h ! a)) k = Returns (deref h1 s1)"
    using getSection_st_step[OF Cons.prems] by blast
  show ?case
  proof (cases s1)
    case None
    with st ag k1 u1 show ?thesis by (simp add: deref_def)
  next
    case (Some b)
    with v1 have b: "b < length h1" by (simp add: validPtr_def)
    from Cons.IH[OF u1 b] obtain r h' where
      lp: "GetValue_st_loop h1 (Some b) ks = Returns (r, h')"
      and k2: "take (length h1) h' = h1" and u2: "unlocked h'"
      and vr: "case r of Inl e \<Rightarrow> True | Inr p \<Rightarrow> \<exists>b. p = Some b \<and> b < length h'"
      and ag2: "GetValue_loop (Some (h1 ! b)) ks = Returns (map_sum id (deref h') r)"
      by blast
    have "take (length h) h' = h" using k1 k2 by (rule take_grow)
    moreover have "GetValue_st_loop h (Some a) (k # ks) = Returns (r, h')"
      using Some st lp by simp
    moreover have "GetValue_loop (Some (h ! a)) (k # ks) = Returns (map_sum id (deref h') r)"
      using Some ag ag2 by (simp add: deref_def)
    ultimately show ?thesis using u2 vr by blast
  qed
qed

lemma GetValue_st_frame:
  assumes "d \<noteq> []" and "unlocked h" and "validPtr h s"
  shows "\<exists>r h'. GetValue_st d h s key = Returns (r, h') \<and>
          take (length h) h' = h \<and> unlocked h' \<and>
          GetValue d (deref h s) key = Returns r"
proof (cases s)
  case None
  with assms(2) show ?thesis
    by (simp add: GetValue_st_def GetValue_def deref_def)
next
  case (Some a)
  with assms(3) have a: "a < length h" by (simp add: validPtr_def)
  define segs where "segs = splitSections d key"
  define pre where "pre = (if length segs > 1 then take (length segs - 1) segs else [])"
  have ne: "length segs \<noteq> 0"
    using assms(1) by (simp add: segs_def splitSections_not_Nil)
  obtain r h' where
    lp: "GetValue_st_loop h (Some a) pre = Returns (r, h')"
    and k: "take (length h) h' = h" and u: "unlocked h'"
    and vr: "case r of Inl e \<Rightarrow> True | Inr p \<Rightarrow> \<exists>b. p = Some b \<and> b < length h'"
    and ag: "GetValue_loop (Some (h ! a)) pre = Returns (map_sum id (deref h') r)"
    using GetValue_st_loop_frame[OF assms(2) a, of pre] by blast
  show ?thesis
  proof (cases r)
    case (Inl e)
    show ?thesis
      unfolding Some GetValue_st_def GetValue_def Let_def segs_def[symmetric] pre_def[symmetric]
      using Inl lp ag k u by (simp add: deref_def)
  next
    case (Inr p)
    with vr obtain b where b: "p = Some b" "b < length h'" by auto
    have free: "\<not> mtx (h' ! b)" using u b(2) by (rule unlocked_nth)
    let ?h1 = "h'[b := (h' ! b)\<lparr>mtx := True\<rparr>]"
    have lk: "Lock h' b = Returns ?h1" using free by (rule Lock_free)
    have rd: "m (?h1 ! b) = m (h' ! b)" using b(2) by simp
    have ul: "Unlock ?h1 b = Returns h'"
      using Unlock_after_Lock[OF b(2) free, of "[]"] by simp
    show ?thesis
      unfolding Some GetValue_st_def GetValue_def Let_def segs_def[symmetric] pre_def[symmetric]
      using Inr b lp ag k u ne by (simp add: deref_def lk rd ul split: option.splits)
  qed
qed


section \<open>Evaluations used by the examples\<close>

lemma split_x: "splitSections '':'' ''x'' = [''x'']"
  by (simp add: splitSections_def Split_def genSplit.simps)

lemma split_y: "splitSections '':'' ''y'' = [''y'']"
  by (simp add: splitSections_def Split_def genSplit.simps)

lemma split_a_b: "splitSections '':'' ''a:b'' = [''a'', ''b'']"
  by (simp add: splitSections_def Split_def genSplit.simps)

lemma Atoi_42: "Atoi ''42'' = Inr 42"
  by (simp add: Atoi_def isDigit_def digitVal_def)

lemma Atoi_abc: "Atoi ''abc'' = Inl (NumError ''Atoi'' ''abc'' ErrSyntax)"
  by (simp add: Atoi_def isDigit_def digitVal_def)

lemma Atoi_out_of_range:
  "Atoi ''9223372036854775808'' = Inl (NumError ''Atoi'' ''9223372036854775808'' ErrRange)"
  by (simp add: Atoi_def ParseInt_def ParseUint_def isDigit_def digitVal_def)

lemma demo_values:
  "GetValue '':'' demoRoot ''p'' = Returns (Inr (VString ''abc''))"
  "GetValue '':'' demoRoot ''q'' = Returns (Inr (VString ''abc''))"
  "GetValue '':'' demoRoot ''b'' = Returns (Inr (VString ''yes''))"
  "GetValue '':'' demoRoot ''n'' = Returns (Inr (VInt 42))"
  "GetValue '':'' demoRoot ''s'' = Returns (Inr (VString ''42''))"
  "GetValue '':'' demoRoot ''g:e:f'' = Returns (Inr (VString ''true''))"
  "GetValue '':'' demoRoot ''missing:path'' = Returns (Inl ErrNil)"
  by (simp_all add: GetValue_def demoRoot_def demoTree_def splitSections_def Split_def
      genSplit.simps getSection_def)

section \<open>Absent sections\<close>

text \<open>
  A method called on an interface value that holds the nil pointer is safe: navigation
  gives an absent section again and every query fails with \<^verbatim>\<open>ErrNil\<close>. A method called on
  the nil interface panics.
\<close>

lemma nil_pointer_receiver:
  "GetSection d None key = Returns (if splitSections d key = [] then Holds None else NilInterface)"
  "GetValue d None key = Returns (Inl ErrNil)"
  "GetString L d None key = Returns (Inl ErrNil)"
  "GetInt L d None key = Returns (Inl ErrNil)"
  "GetBool L d None key = Returns (Inl ErrNil)"
  "GetFloat64 L d None key = Returns (Inl ErrNil)"
  "IsNil None"
  by (simp_all add: GetSection_def GetSection_loop_nil GetValue_nil GetString_def GetInt_def
      GetBool_def GetFloat64_def IsNil_def)

lemma nil_interface_receiver: "invoke NilInterface f = Panics NilPointerDereference"
  by (simp add: invoke_def)

text \<open>
  Whatever the tree, if \<open>x\<close> is not the key of a nested mapping at its root, the chained
  navigation through \<open>x\<close> and \<open>y\<close> ends in the nil interface, and a third call panics.
\<close>

lemma chain_through_missing_key:
  assumes "\<forall>vc. map_of cm ''x'' \<noteq> Some (VMap vc)"
  shows "and_then (GetSection '':'' (Some \<lparr>mtx = False, m = cm\<rparr>) ''x'')
           (\<lambda>i. and_then (invoke i (\<lambda>s. GetSection '':'' s ''y'')) (\<lambda>j. invoke j f)) =
         Panics NilPointerDereference"
proof -
  have "getSection (Some \<lparr>mtx = False, m = cm\<rparr>) ''x'' = Returns None"
    using assms by (auto simp: getSection_Some split: option.splits val.splits)
  then show ?thesis
    by (simp add: GetSection_def split_x split_y invoke_def)
qed

text \<open>
  C1. On the empty tree, which lacks the key \<open>x\<close>, \<^verbatim>\<open>GetSection("x")\<close> returns an
  interface value holding the nil pointer (the \<^verbatim>\<open>return s\<close> after the loop);
  \<^verbatim>\<open>GetSection("y")\<close> on it returns the nil interface (the \<^verbatim>\<open>return nil\<close> inside the
  loop); and the call of \<^verbatim>\<open>GetString("z")\<close> on the nil interface panics. The chain
  \<^verbatim>\<open>GetSection("x").GetSection("y").GetString("z")\<close> does not return the absent error: it
  ends in a nil pointer dereference.
\<close>

theorem chained_navigation_panics:
  "GetSection '':'' (Some \<lparr>mtx = False, m = []\<rparr>) ''x'' = Returns (Holds None) \<and>
   invoke (Holds None) (\<lambda>s. GetSection '':'' s ''y'') = Returns NilInterface \<and>
   invoke NilInterface (\<lambda>s. GetString demoLib '':'' s ''z'') = Panics NilPointerDereference \<and>
   and_then (GetSection '':'' (Some \<lparr>mtx = False, m = []\<rparr>) ''x'')
     (\<lambda>i. and_then (invoke i (\<lambda>s. GetSection '':'' s ''y''))
        (\<lambda>j. invoke j (\<lambda>s. GetString demoLib '':'' s ''z''))) = Panics NilPointerDereference"
  by (simp add: GetSection_def split_x split_y getSection_def invoke_def)

section \<open>Navigation\<close>

text \<open>
  \<^verbatim>\<open>GetSection\<close> on a section that is not nil returns an interface value holding a
  section that is not nil exactly when the whole chain of lookups succeeds. It returns
  the nil interface exactly when the chain fails before the last segment.
\<close>

lemma GetSection_present_iff:
  "\<exists>i. GetSection d (Some s) key = Returns i \<and>
       (present i \<longleftrightarrow> resolve (m s) (splitSections d key) \<noteq> None)"
  using GetSection_loop_resolve[of s "splitSections d key"] by (auto simp: GetSection_def)

lemma GetSection_NilInterface_iff:
  "GetSection d (Some s) key = Returns NilInterface \<longleftrightarrow>
     resolve (m s) (butlast (splitSections d key)) = None"
  by (simp add: GetSection_def GetSection_loop_NilInterface)

text \<open>
  C2. On the empty tree the chain of lookups along \<open>a:b\<close> fails, so
  \<^verbatim>\<open>GetSection("a:b").IsNil()\<close> should be true. \<^verbatim>\<open>GetSection\<close> returns the nil interface
  there (the first segment fails: \<^verbatim>\<open>return nil\<close> in the second round of the loop), and
  the call of \<^verbatim>\<open>IsNil\<close> on it panics instead of returning true.
\<close>

theorem IsNil_after_GetSection_panics:
  "resolve [] (splitSections '':'' ''a:b'') = None \<and>
   GetSection '':'' (Some \<lparr>mtx = False, m = []\<rparr>) ''a:b'' = Returns NilInterface \<and>
   and_then (GetSection '':'' (Some \<lparr>mtx = False, m = []\<rparr>) ''a:b'')
     (\<lambda>i. invoke i (\<lambda>s. Returns (IsNil s))) = Panics NilPointerDereference"
  by (simp add: GetSection_def split_a_b getSection_def invoke_def)

section \<open>Value lookup\<close>

text \<open>
  C3. For a section that is not nil and a non-empty delimiter, \<^verbatim>\<open>GetValue\<close> returns
  without a panic: if the segments before the last do not all resolve to nested
  mappings, it fails with \<^verbatim>\<open>ErrNil\<close>; otherwise the last segment is looked up in the
  mapping reached, a missing key fails with \<^verbatim>\<open>ErrNil\<close>, and a value that is found is
  returned as it is stored, whatever its kind (a nested mapping included).
\<close>

theorem GetValue_resolves_path:
  assumes "d \<noteq> []"
  shows "GetValue d (Some s) key =
     Returns (case resolve (m s) (butlast (splitSections d key)) of
                None \<Rightarrow> Inl ErrNil
              | Some vc \<Rightarrow>
                  (case map_of vc (last (splitSections d key)) of
                     None \<Rightarrow> Inl ErrNil
                   | Some v \<Rightarrow> Inr v))"
  using GetValue_lookupValue[OF assms, of s key] by (simp add: lookupValue_def)

theorem GetValue_resolves_path_witness:
  "'':'' \<noteq> [] \<and>
   GetValue '':'' (Some \<lparr>mtx = False, m = demoTree\<rparr>) ''g:e'' =
     Returns (Inr (VMap [(''f'', VString ''true'')])) \<and>
   GetValue '':'' (Some \<lparr>mtx = False, m = demoTree\<rparr>) ''g:e:f'' =
     Returns (Inr (VString ''true'')) \<and>
   GetValue '':'' (Some \<lparr>mtx = False, m = demoTree\<rparr>) ''n:e:f'' = Returns (Inl ErrNil) \<and>
   GetValue '':'' (Some \<lparr>mtx = False, m = demoTree\<rparr>) ''g:e:x'' = Returns (Inl ErrNil)"
proof -
  have d: "'':'' \<noteq> []" by simp
  have s1: "splitSections '':'' ''g:e'' = [''g'', ''e'']"
    and s2: "splitSections '':'' ''g:e:f'' = [''g'', ''e'', ''f'']"
    and s3: "splitSections '':'' ''n:e:f'' = [''n'', ''e'', ''f'']"
    and s4: "splitSections '':'' ''g:e:x'' = [''g'', ''e'', ''x'']"
    by (simp_all add: splitSections_def Split_def genSplit.simps)
  show ?thesis
    using GetValue_resolves_path[OF d, of "\<lparr>mtx = False, m = demoTree\<rparr>" "''g:e''"]
      GetValue_resolves_path[OF d, of "\<lparr>mtx = False, m = demoTree\<rparr>" "''g:e:f''"]
      GetValue_resolves_path[OF d, of "\<lparr>mtx = False, m = demoTree\<rparr>" "''n:e:f''"]
      GetValue_resolves_path[OF d, of "\<lparr>mtx = False, m = demoTree\<rparr>" "''g:e:x''"]
    by (simp add: s1 s2 s3 s4 demoTree_def)
qed

section \<open>Typed getters\<close>

text \<open>
  Wherever the integer 42 or the string \<open>42\<close> is stored, \<^verbatim>\<open>GetInt\<close> returns 42; where the
  string \<open>abc\<close> is stored it fails with the error of \<^verbatim>\<open>strconv.Atoi\<close>.
\<close>

lemma GetInt_stored_42:
  "GetValue d s key = Returns (Inr (VInt 42)) \<Longrightarrow> GetInt L d s key = Returns (Inr 42)"
  "GetValue d s key = Returns (Inr (VString ''42'')) \<Longrightarrow> GetInt L d s key = Returns (Inr 42)"
  by (simp_all add: GetInt_def valToString_def Atoi_42)

lemma GetInt_stored_abc:
  "GetValue d s key = Returns (Inr (VString ''abc'')) \<Longrightarrow>
   GetInt L d s key = Returns (Inl (NumError ''Atoi'' ''abc'' ErrSyntax))"
  by (simp add: GetInt_def valToString_def Atoi_abc)

text \<open>
  C4. On the tree that stores the string \<open>abc\<close> at \<open>p\<close>, \<^verbatim>\<open>GetInt("p")\<close> fails, but not
  with \<^verbatim>\<open>ErrInvalidType\<close>: the error returned is the \<^verbatim>\<open>*strconv.NumError\<close> of
  \<^verbatim>\<open>strconv.Atoi\<close>, passed on unchanged.
\<close>

theorem GetInt_unparsable_string_error:
  "GetValue '':'' (Some \<lparr>mtx = False, m = [(''p'', VString ''abc'')]\<rparr>) ''p'' =
     Returns (Inr (VString ''abc'')) \<and>
   GetInt demoLib '':'' (Some \<lparr>mtx = False, m = [(''p'', VString ''abc'')]\<rparr>) ''p'' =
     Returns (Inl (NumError ''Atoi'' ''abc'' ErrSyntax)) \<and>
   GetInt demoLib '':'' (Some \<lparr>mtx = False, m = [(''p'', VString ''abc'')]\<rparr>) ''p'' \<noteq>
     Returns (Inl ErrInvalidType)"
proof -
  have "GetValue '':'' (Some \<lparr>mtx = False, m = [(''p'', VString ''abc'')]\<rparr>) ''p'' =
     Returns (Inr (VString ''abc''))"
    by (simp add: GetValue_def splitSections_def Split_def genSplit.simps)
  then show ?thesis
    by (simp add: GetInt_stored_abc)
qed

text \<open>
  C6. Whenever \<^verbatim>\<open>GetValue\<close> finds a value, \<^verbatim>\<open>GetString\<close> returns a string and no error:
  a stored string as it is, and every other value in the rendering of the verb
  \<^verbatim>\<open>%v\<close>.
\<close>

theorem GetString_never_fails:
  assumes "GetValue d s key = Returns (Inr v)"
  shows "GetString L d s key =
     Returns (Inr (case v of
                     VString str \<Rightarrow> str
                   | VNil \<Rightarrow> ''<nil>''
                   | VInt i \<Rightarrow> FormatInt i
                   | VBool b \<Rightarrow> (if b then ''true'' else ''false'')
                   | VFloat x \<Rightarrow> FormatFloat L x
                   | VMap cm \<Rightarrow> FormatMap L cm))"
  using assms by (simp add: GetString_def valToString_def split: val.splits)

theorem GetString_never_fails_witness:
  "GetValue '':'' demoRoot ''n'' = Returns (Inr (VInt 42)) \<and>
   GetString demoLib '':'' demoRoot ''n'' = Returns (Inr ''42'')"
proof -
  have v: "GetValue '':'' demoRoot ''n'' = Returns (Inr (VInt 42))"
    by (simp add: demo_values)
  have "FormatInt 42 = ''42''"
    by (simp add: FormatInt_def formatNat.simps digitChar_def)
  then show ?thesis
    using v GetString_never_fails[OF v, of demoLib] by simp
qed

text \<open>
  On a value that is found, \<^verbatim>\<open>GetBool\<close> returns what \<^verbatim>\<open>strconv.ParseBool\<close> makes of the
  rendering of the value: it succeeds exactly on the twelve literals of \<^verbatim>\<open>ParseBool\<close>.
\<close>

lemma GetBool_coercion:
  assumes "GetValue d s key = Returns (Inr v)"
  shows "(\<exists>b. GetBool L d s key = Returns (Inr b)) \<longleftrightarrow>
           valToString L v \<in> set [''1'', ''t'', ''T'', ''true'', ''TRUE'', ''True'',
                                  ''0'', ''f'', ''F'', ''false'', ''FALSE'', ''False'']"
    and "valToString L v \<in> set [''1'', ''t'', ''T'', ''true'', ''TRUE'', ''True''] \<Longrightarrow>
           GetBool L d s key = Returns (Inr True)"
    and "valToString L v \<in> set [''0'', ''f'', ''F'', ''false'', ''FALSE'', ''False''] \<Longrightarrow>
           GetBool L d s key = Returns (Inr False)"
    and "valToString L v \<notin> set [''1'', ''t'', ''T'', ''true'', ''TRUE'', ''True'',
                                  ''0'', ''f'', ''F'', ''false'', ''FALSE'', ''False''] \<Longrightarrow>
           GetBool L d s key = Returns (Inl (NumError ''ParseBool'' (valToString L v) ErrSyntax))"
proof -
  have g: "GetBool L d s key = Returns (ParseBool (valToString L v))"
    using assms(1) by (cases v) (simp_all add: GetBool_def valToString_def ParseBool_def)
  show "(\<exists>b. GetBool L d s key = Returns (Inr b)) \<longleftrightarrow>
           valToString L v \<in> set [''1'', ''t'', ''T'', ''true'', ''TRUE'', ''True'',
                                  ''0'', ''f'', ''F'', ''false'', ''FALSE'', ''False'']"
    unfolding g ParseBool_def by (simp split: if_splits) blast
  show "valToString L v \<in> set [''1'', ''t'', ''T'', ''true'', ''TRUE'', ''True''] \<Longrightarrow>
           GetBool L d s key = Returns (Inr True)"
    unfolding g ParseBool_def by simp
  show "valToString L v \<in> set [''0'', ''f'', ''F'', ''false'', ''FALSE'', ''False''] \<Longrightarrow>
           GetBool L d s key = Returns (Inr False)"
    unfolding g ParseBool_def by auto
  show "valToString L v \<notin> set [''1'', ''t'', ''T'', ''true'', ''TRUE'', ''True'',
                                  ''0'', ''f'', ''F'', ''false'', ''FALSE'', ''False''] \<Longrightarrow>
           GetBool L d s key = Returns (Inl (NumError ''ParseBool'' (valToString L v) ErrSyntax))"
    unfolding g ParseBool_def by simp
qed

lemma GetBool_scenario: "GetBool L '':'' demoRoot ''g:e:f'' = Returns (Inr True)"
  by (simp add: GetBool_def demo_values valToString_def ParseBool_def)

text \<open>
  C7. On the tree that stores the string \<open>yes\<close> at \<open>b\<close>, which is none of the literals of
  \<^verbatim>\<open>ParseBool\<close>, \<^verbatim>\<open>GetBool("b")\<close> fails, but not with \<^verbatim>\<open>ErrInvalidType\<close>: the error returned
  is the \<^verbatim>\<open>*strconv.NumError\<close> of \<^verbatim>\<open>strconv.ParseBool\<close>, passed on unchanged.
\<close>

theorem GetBool_unparsable_string_error:
  "GetValue '':'' (Some \<lparr>mtx = False, m = [(''b'', VString ''yes'')]\<rparr>) ''b'' =
     Returns (Inr (VString ''yes'')) \<and>
   GetBool demoLib '':'' (Some \<lparr>mtx = False, m = [(''b'', VString ''yes'')]\<rparr>) ''b'' =
     Returns (Inl (NumError ''ParseBool'' ''yes'' ErrSyntax)) \<and>
   GetBool demoLib '':'' (Some \<lparr>mtx = False, m = [(''b'', VString ''yes'')]\<rparr>) ''b'' \<noteq>
     Returns (Inl ErrInvalidType)"
proof -
  have "GetValue '':'' (Some \<lparr>mtx = False, m = [(''b'', VString ''yes'')]\<rparr>) ''b'' =
     Returns (Inr (VString ''yes''))"
    by (simp add: GetValue_def splitSections_def Split_def genSplit.simps)
  then show ?thesis
    by (simp add: GetBool_def valToString_def ParseBool_def)
qed

subsection \<open>The errors of a failed coercion\<close>

lemma Atoi_error: "Atoi str = Inl e \<Longrightarrow> \<exists>k. e = NumError ''Atoi'' str k"
  by (auto simp: Atoi_def Let_def split: if_splits option.splits sum.splits)

lemma ParseBool_error: "ParseBool str = Inl e \<Longrightarrow> e = NumError ''ParseBool'' str ErrSyntax"
  by (auto simp: ParseBool_def split: if_splits)

lemma parseFloat64_error:
  "parseFloat64 L str = Inl e \<Longrightarrow> \<exists>k. e = NumError ''ParseFloat'' str k"
  by (auto simp: parseFloat64_def split: sum.splits)

lemma typed_getter_errors:
  assumes "GetValue d s key = Returns (Inr v)"
  shows "GetInt L d s key = Returns (Inl e) \<Longrightarrow> \<exists>k. e = NumError ''Atoi'' (valToString L v) k"
    and "GetBool L d s key = Returns (Inl e) \<Longrightarrow>
           e = NumError ''ParseBool'' (valToString L v) ErrSyntax"
    and "GetFloat64 L d s key = Returns (Inl e) \<Longrightarrow>
           \<exists>k. e = NumError ''ParseFloat'' (valToString L v) k"
  using assms
  by (auto simp: GetInt_def GetBool_def GetFloat64_def split: val.splits
      dest: Atoi_error ParseBool_error parseFloat64_error)

text \<open>
  C8. On the tree that stores the string \<open>abc\<close> at \<open>p\<close> and at \<open>q\<close>, no typed getter can
  coerce the value. Each of them fails, but not with \<^verbatim>\<open>ErrInvalidType\<close>: the error
  returned is the \<^verbatim>\<open>*strconv.NumError\<close> of the parser, passed on unchanged. It names the
  parser and the text that did not parse, and is the same value on both paths: it does
  not carry the path.
\<close>

theorem typed_getters_return_NumError:
  "GetInt demoLib '':''
     (Some \<lparr>mtx = False, m = [(''p'', VString ''abc''), (''q'', VString ''abc'')]\<rparr>) ''p'' =
     Returns (Inl (NumError ''Atoi'' ''abc'' ErrSyntax)) \<and>
   GetInt demoLib '':''
     (Some \<lparr>mtx = False, m = [(''p'', VString ''abc''), (''q'', VString ''abc'')]\<rparr>) ''q'' =
     Returns (Inl (NumError ''Atoi'' ''abc'' ErrSyntax)) \<and>
   GetBool demoLib '':''
     (Some \<lparr>mtx = False, m = [(''p'', VString ''abc''), (''q'', VString ''abc'')]\<rparr>) ''p'' =
     Returns (Inl (NumError ''ParseBool'' ''abc'' ErrSyntax)) \<and>
   GetBool demoLib '':''
     (Some \<lparr>mtx = False, m = [(''p'', VString ''abc''), (''q'', VString ''abc'')]\<rparr>) ''q'' =
     Returns (Inl (NumError ''ParseBool'' ''abc'' ErrSyntax)) \<and>
   GetFloat64 demoLib '':''
     (Some \<lparr>mtx = False, m = [(''p'', VString ''abc''), (''q'', VString ''abc'')]\<rparr>) ''p'' =
     Returns (Inl (NumError ''ParseFloat'' ''abc'' ErrSyntax)) \<and>
   GetFloat64 demoLib '':''
     (Some \<lparr>mtx = False, m = [(''p'', VString ''abc''), (''q'', VString ''abc'')]\<rparr>) ''q'' =
     Returns (Inl (NumError ''ParseFloat'' ''abc'' ErrSyntax)) \<and>
   NumError ''Atoi'' ''abc'' ErrSyntax \<noteq> ErrInvalidType \<and>
   NumError ''ParseBool'' ''abc'' ErrSyntax \<noteq> ErrInvalidType \<and>
   NumError ''ParseFloat'' ''abc'' ErrSyntax \<noteq> ErrInvalidType"
proof -
  have "GetValue '':''
     (Some \<lparr>mtx = False, m = [(''p'', VString ''abc''), (''q'', VString ''abc'')]\<rparr>) ''p'' =
     Returns (Inr (VString ''abc''))"
    and "GetValue '':''
     (Some \<lparr>mtx = False, m = [(''p'', VString ''abc''), (''q'', VString ''abc'')]\<rparr>) ''q'' =
     Returns (Inr (VString ''abc''))"
    by (simp_all add: GetValue_def splitSections_def Split_def genSplit.simps)
  then show ?thesis
    by (simp add: GetInt_def GetBool_def GetFloat64_def valToString_def Atoi_abc
        ParseBool_def parseFloat64_def demoLib_def)
qed

section \<open>Default-valued getters\<close>

text \<open>
  C5. With a non-empty delimiter, on every section pointer (nil or not), every key and
  every default: the plain getter returns, and the default-valued getter returns the
  value the plain getter found, or the default, unchanged, when the plain getter
  returned an error of any kind. A default-valued getter returns a plain value: it has
  no error to pass on.
\<close>

theorem default_getters_absorb_errors:
  assumes "d \<noteq> []"
  shows "(\<exists>r. GetValue d s key = Returns r \<and>
            GetValueOrDef d s key dv = Returns (case r of Inl err \<Rightarrow> dv | Inr v \<Rightarrow> v)) \<and>
         (\<exists>r. GetString L d s key = Returns r \<and>
            GetStringOrDef L d s key ds = Returns (case r of Inl err \<Rightarrow> ds | Inr v \<Rightarrow> v)) \<and>
         (\<exists>r. GetInt L d s key = Returns r \<and>
            GetIntOrDef L d s key di = Returns (case r of Inl err \<Rightarrow> di | Inr v \<Rightarrow> v)) \<and>
         (\<exists>r. GetBool L d s key = Returns r \<and>
            GetBoolOrDef L d s key db =
              Returns (VBool (case r of Inl err \<Rightarrow> db | Inr v \<Rightarrow> v))) \<and>
         (\<exists>r. GetFloat64 L d s key = Returns r \<and>
            GetFloat64OrDef L d s key df = Returns (case r of Inl err \<Rightarrow> df | Inr v \<Rightarrow> v))"
proof -
  obtain r where r: "GetValue d s key = Returns r"
    using GetValue_returns[OF assms] by blast
  show ?thesis
    by (cases r)
      (simp_all add: r GetValueOrDef_def GetStringOrDef_def GetIntOrDef_def GetBoolOrDef_def
        GetFloat64OrDef_def GetString_def GetInt_def GetBool_def GetFloat64_def orDef_def)
qed

theorem default_getters_absorb_errors_witness:
  "'':'' \<noteq> [] \<and>
   GetIntOrDef demoLib '':'' demoRoot ''missing:path'' 7 = Returns 7 \<and>
   GetIntOrDef demoLib '':'' demoRoot ''p'' 7 = Returns 7 \<and>
   GetIntOrDef demoLib '':'' demoRoot ''s'' 7 = Returns 42"
proof -
  have d: "'':'' \<noteq> []" by simp
  have a: "GetInt demoLib '':'' demoRoot ''missing:path'' = Returns (Inl ErrNil)"
    and b: "GetInt demoLib '':'' demoRoot ''p'' =
              Returns (Inl (NumError ''Atoi'' ''abc'' ErrSyntax))"
    and c: "GetInt demoLib '':'' demoRoot ''s'' = Returns (Inr 42)"
    by (simp_all add: GetInt_def demo_values valToString_def Atoi_abc Atoi_42)
  show ?thesis
    using default_getters_absorb_errors[OF d, of demoRoot "''missing:path''" _ demoLib _ 7]
      default_getters_absorb_errors[OF d, of demoRoot "''p''" _ demoLib _ 7]
      default_getters_absorb_errors[OF d, of demoRoot "''s''" _ demoLib _ 7]
    by (simp add: a b c)
qed

section \<open>No operation writes\<close>

lemma returnsKeeping_I:
  "x = Returns (r, h') \<Longrightarrow> take (length h) h' = h \<Longrightarrow> unlocked h' \<Longrightarrow> returnsKeeping h x"
  by (simp add: returnsKeeping_def)

text \<open>
  C9. On a store whose mutexes are free, with a non-empty delimiter, every operation
  of the interface returns, and the store it leaves holds every section object it
  found, unchanged: the same map, nested mappings included, and the mutex free again.
  All that a call adds to the store are the section objects that \<^verbatim>\<open>getSection\<close>
  creates.
\<close>

theorem section_operations_read_only:
  assumes "d \<noteq> []" and "unlocked h" and "validPtr h s"
  shows "returnsKeeping h (GetSection_st d h s key) \<and>
         returnsKeeping h (GetValue_st d h s key) \<and>
         returnsKeeping h (GetString_st L d h s key) \<and>
         returnsKeeping h (GetInt_st L d h s key) \<and>
         returnsKeeping h (GetBool_st L d h s key) \<and>
         returnsKeeping h (GetFloat64_st L d h s key) \<and>
         returnsKeeping h (GetValueOrDef_st d h s key dv) \<and>
         returnsKeeping h (GetStringOrDef_st L d h s key ds) \<and>
         returnsKeeping h (GetIntOrDef_st L d h s key di) \<and>
         returnsKeeping h (GetBoolOrDef_st L d h s key db) \<and>
         returnsKeeping h (GetFloat64OrDef_st L d h s key df) \<and>
         returnsKeeping h (IsNil_st h s)"
proof -
  obtain i h1 where gs: "GetSection_st d h s key = Returns (i, h1)"
    and k1: "take (length h) h1 = h" and u1: "unlocked h1"
    using GetSection_st_loop_frame[OF assms(2,3), of "splitSections d key"]
    by (auto simp: GetSection_st_def)
  obtain r h2 where gv: "GetValue_st d h s key = Returns (r, h2)"
    and k2: "take (length h) h2 = h" and u2: "unlocked h2"
    using GetValue_st_frame[OF assms, of key] by blast
  have "returnsKeeping h (GetSection_st d h s key)"
    using gs k1 u1 by (rule returnsKeeping_I)
  moreover have "returnsKeeping h (GetValue_st d h s key)"
    using gv k2 u2 by (rule returnsKeeping_I)
  moreover have "returnsKeeping h (GetString_st L d h s key)"
    and "returnsKeeping h (GetInt_st L d h s key)"
    and "returnsKeeping h (GetBool_st L d h s key)"
    and "returnsKeeping h (GetFloat64_st L d h s key)"
    and "returnsKeeping h (GetValueOrDef_st d h s key dv)"
    and "returnsKeeping h (GetStringOrDef_st L d h s key ds)"
    and "returnsKeeping h (GetIntOrDef_st L d h s key di)"
    and "returnsKeeping h (GetBoolOrDef_st L d h s key db)"
    and "returnsKeeping h (GetFloat64OrDef_st L d h s key df)"
    using k2 u2
    by (cases r; simp add: gv returnsKeeping_def GetString_st_def GetInt_st_def GetBool_st_def
        GetFloat64_st_def GetValueOrDef_st_def GetStringOrDef_st_def GetIntOrDef_st_def
        GetBoolOrDef_st_def GetFloat64OrDef_st_def)+
  moreover have "returnsKeeping h (IsNil_st h s)"
    using assms(2) by (simp add: IsNil_st_def returnsKeeping_def)
  ultimately show ?thesis by blast
qed

theorem section_operations_read_only_witness:
  "'':'' \<noteq> [] \<and> unlocked [\<lparr>mtx = False, m = demoTree\<rparr>] \<and>
   validPtr [\<lparr>mtx = False, m = demoTree\<rparr>] (Some 0) \<and>
   returnsKeeping [\<lparr>mtx = False, m = demoTree\<rparr>]
     (GetSection_st '':'' [\<lparr>mtx = False, m = demoTree\<rparr>] (Some 0) ''g:e'') \<and>
   returnsKeeping [\<lparr>mtx = False, m = demoTree\<rparr>]
     (GetValue_st '':'' [\<lparr>mtx = False, m = demoTree\<rparr>] (Some 0) ''g:e:f'') \<and>
   returnsKeeping [\<lparr>mtx = False, m = demoTree\<rparr>]
     (GetBoolOrDef_st demoLib '':'' [\<lparr>mtx = False, m = demoTree\<rparr>] (Some 0) ''g:e:f'' False)"
proof -
  have d: "'':'' \<noteq> []" by simp
  have u: "unlocked [\<lparr>mtx = False, m = demoTree\<rparr>]" by (simp add: unlocked_def)
  have v: "validPtr [\<lparr>mtx = False, m = demoTree\<rparr>] (Some 0)" by (simp add: validPtr_def)
  show ?thesis
    using d u v section_operations_read_only[OF d u v, of "''g:e''"]
      section_operations_read_only[OF d u v, of "''g:e:f''"]
    by simp
qed

text \<open>
  The results over the store are those of the functions without it, read through the
  pointers.
\<close>

lemma store_model_agrees:
  assumes "d \<noteq> []" and "unlocked h" and "validPtr h s"
  shows "\<exists>i h'. GetSection_st d h s key = Returns (i, h') \<and>
          GetSection d (deref h s) key = Returns (map_Section (deref h') i)"
    and "\<exists>r h'. GetValue_st d h s key = Returns (r, h') \<and>
          GetValue d (deref h s) key = Returns r"
  using GetSection_st_loop_frame[OF assms(2,3), of "splitSections d key"]
    GetValue_st_frame[OF assms, of key]
  by (auto simp: GetSection_st_def GetSection_def)

lemma store_model_example:
  "GetValue_st '':'' [\<lparr>mtx = False, m = demoTree\<rparr>] (Some 0) ''g:e:f'' =
   Returns (Inr (VString ''true''),
     [\<lparr>mtx = False, m = demoTree\<rparr>,
      \<lparr>mtx = False, m = [(''e'', VMap [(''f'', VString ''true'')])]\<rparr>,
      \<lparr>mtx = False, m = [(''f'', VString ''true'')]\<rparr>])"
  by (simp add: GetValue_st_def splitSections_def Split_def genSplit.simps getSection_st_def
      Lock_def Unlock_def demoTree_def)

section \<open>Empty segments\<close>

text \<open>
  C10. With a non-empty delimiter, splitting any key gives at least one segment, and
  the empty key gives the single empty segment; so \<^verbatim>\<open>GetValue\<close> returns for every
  pointer and key, and \<^verbatim>\<open>GetValue("")\<close> on a section is the lookup of the empty key in
  its map. Splitting drops and merges nothing: the segments of a key are plain (no
  segment runs into a delimiter) and joined with the delimiter they give the key back.
  Conversely every list of plain segments, empty ones included wherever they stand
  (first, last, or next to each other), is exactly what its joined key splits into.
  \<^verbatim>\<open>GetValue\<close> and \<^verbatim>\<open>GetSection\<close> look up these segments one by one, the empty ones as
  the empty key: \<^verbatim>\<open>GetValue\<close> follows the chain of nested mappings along all segments
  but the last and reads the last one there, \<^verbatim>\<open>GetSection\<close> holds the mapping the
  whole chain reaches, or no section when the chain breaks. A leading delimiter gives a
  leading empty segment, and for a delimiter of one character a trailing delimiter
  gives a trailing empty segment.
\<close>

theorem split_keeps_every_segment:
  assumes "d \<noteq> []"
  shows "splitSections d key \<noteq> [] \<and>
         splitSections d [] = [[]] \<and>
         (\<exists>r. GetValue d s key = Returns r) \<and>
         GetValue d (Some sec) [] =
           Returns (case map_of (m sec) [] of None \<Rightarrow> Inl ErrNil | Some v \<Rightarrow> Inr v) \<and>
         GetSection d (Some sec) [] =
           Returns (Holds (case map_of (m sec) [] of
                             Some (VMap vc) \<Rightarrow> Some \<lparr>mtx = False, m = vc\<rparr>
                           | _ \<Rightarrow> None)) \<and>
         plainSegments d (splitSections d key) \<and>
         Join (splitSections d key) d = key \<and>
         GetValue d (Some sec) key =
           Returns (case resolve (m sec) (butlast (splitSections d key)) of
                      None \<Rightarrow> Inl ErrNil
                    | Some vc \<Rightarrow>
                        (case map_of vc (last (splitSections d key)) of
                           None \<Rightarrow> Inl ErrNil
                         | Some v \<Rightarrow> Inr v)) \<and>
         (\<exists>i. GetSection d (Some sec) key = Returns i \<and>
              (case resolve (m sec) (splitSections d key) of
                 None \<Rightarrow> \<not> present i
               | Some vc \<Rightarrow> \<exists>s'. i = Holds (Some s') \<and> m s' = vc)) \<and>
         (plainSegments d segs \<longrightarrow>
            splitSections d (Join segs d) = segs \<and>
            GetValue d (Some sec) (Join segs d) =
              Returns (case resolve (m sec) (butlast segs) of
                         None \<Rightarrow> Inl ErrNil
                       | Some vc \<Rightarrow>
                           (case map_of vc (last segs) of
                              None \<Rightarrow> Inl ErrNil
                            | Some v \<Rightarrow> Inr v)) \<and>
            (\<exists>i. GetSection d (Some sec) (Join segs d) = Returns i \<and>
                 (case resolve (m sec) segs of
                    None \<Rightarrow> \<not> present i
                  | Some vc \<Rightarrow> \<exists>s'. i = Holds (Some s') \<and> m s' = vc))) \<and>
         splitSections d (d @ key) = [] # splitSections d key \<and>
         (\<forall>c. d = [c] \<longrightarrow> splitSections d (key @ d) = splitSections d key @ [[]])"
proof -
  have gv: "\<And>k. GetValue d (Some sec) k =
           Returns (case resolve (m sec) (butlast (splitSections d k)) of
                      None \<Rightarrow> Inl ErrNil
                    | Some vc \<Rightarrow>
                        (case map_of vc (last (splitSections d k)) of
                           None \<Rightarrow> Inl ErrNil
                         | Some v \<Rightarrow> Inr v))"
    using GetValue_lookupValue[OF assms, of sec] by (simp add: lookupValue_def)
  have gs: "\<And>k. \<exists>i. GetSection d (Some sec) k = Returns i \<and>
              (case resolve (m sec) (splitSections d k) of
                 None \<Rightarrow> \<not> present i
               | Some vc \<Rightarrow> \<exists>s'. i = Holds (Some s') \<and> m s' = vc)"
  proof -
    fix k
    obtain i where i: "GetSection_loop (Some sec) (splitSections d k) = Returns i"
      and p: "present i \<longleftrightarrow> resolve (m sec) (splitSections d k) \<noteq> None"
      and h: "\<forall>s'. i = Holds (Some s') \<longrightarrow> resolve (m sec) (splitSections d k) = Some (m s')"
      using GetSection_loop_resolve[of sec "splitSections d k"] by blast
    show "\<exists>i. GetSection d (Some sec) k = Returns i \<and>
              (case resolve (m sec) (splitSections d k) of
                 None \<Rightarrow> \<not> present i
               | Some vc \<Rightarrow> \<exists>s'. i = Holds (Some s') \<and> m s' = vc)"
    proof (cases "resolve (m sec) (splitSections d k)")
      case None
      with i p show ?thesis by (simp add: GetSection_def)
    next
      case (Some vc)
      with p have "present i" by simp
      then obtain s' where s': "i = Holds (Some s')"
        by (auto simp: present_def split: Section.splits option.splits)
      with h Some have "m s' = vc" by simp
      with i s' Some show ?thesis by (simp add: GetSection_def)
    qed
  qed
  have e: "splitSections d [] = [[]]"
    using assms by (simp add: splitSections_def Split_empty_key)
  have v0: "GetValue d (Some sec) [] =
           Returns (case map_of (m sec) [] of None \<Rightarrow> Inl ErrNil | Some v \<Rightarrow> Inr v)"
    using gv[of "[]"] by (simp add: e)
  have s0: "GetSection d (Some sec) [] =
           Returns (Holds (case map_of (m sec) [] of
                             Some (VMap vc) \<Rightarrow> Some \<lparr>mtx = False, m = vc\<rparr>
                           | _ \<Rightarrow> None))"
    by (simp add: GetSection_def e getSection_Some)
  have pl: "plainSegments d (splitSections d key)"
    using assms by (simp add: splitSections_def Split_def plainSegments_genSplit)
  have jn: "Join (splitSections d key) d = key"
    using assms by (simp add: splitSections_def Split_def Join_genSplit)
  have conv: "plainSegments d segs \<longrightarrow>
            splitSections d (Join segs d) = segs \<and>
            GetValue d (Some sec) (Join segs d) =
              Returns (case resolve (m sec) (butlast segs) of
                         None \<Rightarrow> Inl ErrNil
                       | Some vc \<Rightarrow>
                           (case map_of vc (last segs) of
                              None \<Rightarrow> Inl ErrNil
                            | Some v \<Rightarrow> Inr v)) \<and>
            (\<exists>i. GetSection d (Some sec) (Join segs d) = Returns i \<and>
                 (case resolve (m sec) segs of
                    None \<Rightarrow> \<not> present i
                  | Some vc \<Rightarrow> \<exists>s'. i = Holds (Some s') \<and> m s' = vc))"
  proof
    assume "plainSegments d segs"
    then have sp: "splitSections d (Join segs d) = segs"
      using assms by (simp add: splitSections_def Split_def genSplit_Join)
    show "splitSections d (Join segs d) = segs \<and>
            GetValue d (Some sec) (Join segs d) =
              Returns (case resolve (m sec) (butlast segs) of
                         None \<Rightarrow> Inl ErrNil
                       | Some vc \<Rightarrow>
                           (case map_of vc (last segs) of
                              None \<Rightarrow> Inl ErrNil
                            | Some v \<Rightarrow> Inr v)) \<and>
            (\<exists>i. GetSection d (Some sec) (Join segs d) = Returns i \<and>
                 (case resolve (m sec) segs of
                    None \<Rightarrow> \<not> present i
                  | Some vc \<Rightarrow> \<exists>s'. i = Holds (Some s') \<and> m s' = vc))"
      using gv[of "Join segs d"] gs[of "Join segs d"] by (simp only: sp)
  qed
  have ld: "splitSections d (d @ key) = [] # splitSections d key"
    using assms by (simp add: splitSections_def Split_leading)
  have tr: "\<forall>c. d = [c] \<longrightarrow> splitSections d (key @ d) = splitSections d key @ [[]]"
    by (simp add: splitSections_def Split_def genSplit_trailing_char)
  have ne: "splitSections d key \<noteq> []"
    using assms by (rule splitSections_not_Nil)
  have rt: "\<exists>r. GetValue d s key = Returns r"
    using assms by (rule GetValue_returns)
  from ne e rt v0 s0 pl jn gv[of key] gs[of key] conv ld tr show ?thesis
    by (intro conjI)
qed

theorem split_keeps_every_segment_witness:
  "'':'' \<noteq> [] \<and>
   plainSegments '':'' [[], ''n''] \<and>
   plainSegments '':'' [''a'', [], ''b''] \<and>
   plainSegments '':'' [''a'', []] \<and>
   plainSegments '':'' [[], [], ''k''] \<and>
   splitSections '':'' [] = [[]] \<and>
   splitSections '':'' '':n'' = [[], ''n''] \<and>
   splitSections '':'' ''a::b'' = [''a'', [], ''b''] \<and>
   splitSections '':'' ''a:'' = [''a'', []] \<and>
   GetValue '':'' demoRoot [] = Returns (Inr (VInt 7)) \<and>
   GetValue '':'' demoRoot '':n'' = Returns (Inl ErrNil) \<and>
   GetValue '':'' (Some \<lparr>mtx = False, m = [([], VMap [(''k'', VInt 1)])]\<rparr>) '':k'' =
     Returns (Inr (VInt 1)) \<and>
   GetValue '':'' (Some \<lparr>mtx = False, m = [([], VMap [(''k'', VInt 1)])]\<rparr>) ''::k'' =
     Returns (Inl ErrNil)"
proof -
  have d: "'':'' \<noteq> []" by simp
  have p1: "plainSegments '':'' [[], ''n'']"
    and p2: "plainSegments '':'' [''a'', [], ''b'']"
    and p3: "plainSegments '':'' [''a'', []]"
    and p4: "plainSegments '':'' [[], ''k'']"
    and p5: "plainSegments '':'' [[], [], ''k'']"
    by (simp_all add: plainSegments_def occursAt_def)
  have e: "splitSections '':'' [] = [[]]"
    using split_keeps_every_segment[OF d, THEN conjunct2, THEN conjunct1] .
  have v0: "GetValue '':'' demoRoot [] = Returns (Inr (VInt 7))"
    using split_keeps_every_segment[OF d, where sec = "\<lparr>mtx = False, m = demoTree\<rparr>",
        THEN conjunct2, THEN conjunct2, THEN conjunct2, THEN conjunct1]
    by (simp add: demoRoot_def demoTree_def)
  have c1: "splitSections '':'' '':n'' = [[], ''n''] \<and>
            GetValue '':'' demoRoot '':n'' = Returns (Inl ErrNil)"
    using split_keeps_every_segment[OF d, where sec = "\<lparr>mtx = False, m = demoTree\<rparr>"
        and segs = "[[], ''n'']", THEN conjunct2, THEN conjunct2, THEN conjunct2,
        THEN conjunct2, THEN conjunct2, THEN conjunct2, THEN conjunct2, THEN conjunct2,
        THEN conjunct2, THEN conjunct1, THEN mp, OF p1]
    by (simp add: demoRoot_def demoTree_def)
  have c2: "splitSections '':'' ''a::b'' = [''a'', [], ''b'']"
    using split_keeps_every_segment[OF d, where sec = "\<lparr>mtx = False, m = []\<rparr>"
        and segs = "[''a'', [], ''b'']", THEN conjunct2, THEN conjunct2, THEN conjunct2,
        THEN conjunct2, THEN conjunct2, THEN conjunct2, THEN conjunct2, THEN conjunct2,
        THEN conjunct2, THEN conjunct1, THEN mp, OF p2] by simp
  have c3: "splitSections '':'' ''a:'' = [''a'', []]"
    using split_keeps_every_segment[OF d, where sec = "\<lparr>mtx = False, m = []\<rparr>"
        and segs = "[''a'', []]", THEN conjunct2, THEN conjunct2, THEN conjunct2,
        THEN conjunct2, THEN conjunct2, THEN conjunct2, THEN conjunct2, THEN conjunct2,
        THEN conjunct2, THEN conjunct1, THEN mp, OF p3] by simp
  have c4: "GetValue '':'' (Some \<lparr>mtx = False, m = [([], VMap [(''k'', VInt 1)])]\<rparr>) '':k'' =
     Returns (Inr (VInt 1))"
    using split_keeps_every_segment[OF d, where sec = "\<lparr>mtx = False, m = [([], VMap [(''k'', VInt 1)])]\<rparr>"
        and segs = "[[], ''k'']", THEN conjunct2, THEN conjunct2, THEN conjunct2,
        THEN conjunct2, THEN conjunct2, THEN conjunct2, THEN conjunct2, THEN conjunct2,
        THEN conjunct2, THEN conjunct1, THEN mp, OF p4]
    by simp
  have c5: "GetValue '':'' (Some \<lparr>mtx = False, m = [([], VMap [(''k'', VInt 1)])]\<rparr>) ''::k'' =
     Returns (Inl ErrNil)"
    using split_keeps_every_segment[OF d, where sec = "\<lparr>mtx = False, m = [([], VMap [(''k'', VInt 1)])]\<rparr>"
        and segs = "[[], [], ''k'']", THEN conjunct2, THEN conjunct2, THEN conjunct2,
        THEN conjunct2, THEN conjunct2, THEN conjunct2, THEN conjunct2, THEN conjunct2,
        THEN conjunct2, THEN conjunct1, THEN mp, OF p5]
    by simp
  from d p1 p2 p3 p5 e v0 c1 c2 c3 c4 c5 show ?thesis
    by (intro conjI) simp_all
qed

text \<open>
  With the empty delimiter the empty key has no segment at all, and \<^verbatim>\<open>GetValue\<close> reads
  \<^verbatim>\<open>selectors[-1]\<close>.
\<close>

lemma empty_delimiter_empty_key: "GetValue [] (Some sec) [] = Panics IndexOutOfRange"
  by (simp add: GetValue_def splitSections_def Split_def explode.simps)

end
